theory Spec2Isabelle
  imports Main "HOL-Library.Word" "HOL-Library.Multiset"
begin

unbundle bit_operations_syntax

section \<open>The thin-provisioning target (drivers/md/dm-thin.c)\<close>

text \<open>
  A shallow embedding of the runtime I/O engine of dm-thin.c: the bio prison, the
  deferred set, the fast-path map function, the worker's handling of prepared mappings
  and the no-space and low-water paths.

  Pointers are addresses (natural numbers); a kernel list is the HOL list of the
  addresses linked on it, head first. \<open>list_add\<close> puts a node right after the list
  head (the front), \<open>list_splice_init\<close> puts a whole list there, \<open>bio_list_add\<close> and
  \<open>bio_list_merge\<close> add at the tail, \<open>bio_list_pop\<close> takes from the front.
\<close>

subsection \<open>Addresses\<close>

type_synonym bio_ptr = nat
type_synonym cell_ptr = nat
type_synonym mapping_ptr = nat
type_synonym hook_ptr = nat

subsection \<open>Deferred set\<close>

text \<open>
  \<open>struct deferred_entry\<close>: \<open>count\<close> is an \<open>unsigned\<close>; \<open>work_items\<close> is the list of
  the \<open>new_mapping\<close>s linked on the entry through their \<open>list\<close> node. The back pointer
  \<open>ds\<close> is not modelled: an entry is named by its index in \<open>entries\<close>.
\<close>

record deferred_entry =
  count :: "32 word"
  work_items :: "mapping_ptr list"

text \<open>
  \<open>struct deferred_set\<close>. \<open>current_entry\<close> and \<open>sweeper\<close> index the array
  \<open>entries[DEFERRED_SET_SIZE]\<close>; they only ever hold values below 64, so they are
  natural numbers here.
\<close>

record deferred_set =
  current_entry :: nat
  sweeper :: nat
  entries :: "deferred_entry list"

definition DEFERRED_SET_SIZE :: nat where
  "DEFERRED_SET_SIZE = 64"

definition ds_init :: deferred_set where
  "ds_init = \<lparr>current_entry = 0, sweeper = 0,
     entries = replicate DEFERRED_SET_SIZE \<lparr>count = 0, work_items = []\<rparr>\<rparr>"

text \<open>\<open>ds_inc\<close> returns the entry it incremented (its index) and the new set.\<close>

definition ds_inc :: "deferred_set \<Rightarrow> nat \<times> deferred_set" where
  "ds_inc ds =
     (let entry = current_entry ds
      in (entry, ds\<lparr>entries := (entries ds)
            [entry := (entries ds ! entry)\<lparr>count := count (entries ds ! entry) + 1\<rparr>]\<rparr>))"

definition ds_next :: "nat \<Rightarrow> nat" where
  "ds_next index = (index + 1) mod DEFERRED_SET_SIZE"

text \<open>
  The \<open>while\<close> loop of \<open>__sweep\<close>. \<open>list_splice_init\<close> moves the entry's work items
  to the front of \<open>head\<close> and leaves the entry's list empty. The loop is a partial
  function: \<open>None\<close> is the loop that never ends.
\<close>

partial_function (option) sweep_loop ::
  "deferred_set \<Rightarrow> mapping_ptr list \<Rightarrow> (deferred_set \<times> mapping_ptr list) option" where
  "sweep_loop ds head =
     (if sweeper ds \<noteq> current_entry ds \<and> count (entries ds ! sweeper ds) = 0
      then sweep_loop
             (ds\<lparr>entries := (entries ds)
                   [sweeper ds := (entries ds ! sweeper ds)\<lparr>work_items := []\<rparr>],
                 sweeper := ds_next (sweeper ds)\<rparr>)
             (work_items (entries ds ! sweeper ds) @ head)
      else Some (ds, head))"

definition sweep :: "deferred_set \<Rightarrow> mapping_ptr list \<Rightarrow> (deferred_set \<times> mapping_ptr list) option" where
  "sweep ds0 head0 =
     (case sweep_loop ds0 head0 of
        None \<Rightarrow> None
      | Some (ds, head) \<Rightarrow>
          if sweeper ds = current_entry ds \<and> count (entries ds ! sweeper ds) = 0
          then Some (ds\<lparr>entries := (entries ds)
                          [sweeper ds := (entries ds ! sweeper ds)\<lparr>work_items := []\<rparr>]\<rparr>,
                     work_items (entries ds ! sweeper ds) @ head)
          else Some (ds, head))"

text \<open>\<open>BUG_ON\<close> stops the kernel: a result of its own. So does \<open>FAULT\<close>, the use of a
  pointer for a structure it does not point to (a \<open>map_context->ptr\<close> of another kind,
  a hook that has been freed).\<close>

datatype panic = BUG | FAULT

text \<open>
  \<open>ds_dec\<close>: the entry is given by its index; \<open>head\<close> is the caller's list, returned
  with the drained work items in front.
\<close>

definition ds_dec ::
  "nat \<Rightarrow> mapping_ptr list \<Rightarrow> deferred_set \<Rightarrow> (panic + deferred_set \<times> mapping_ptr list) option" where
  "ds_dec entry head ds =
     (if count (entries ds ! entry) = 0 then Some (Inl BUG)
      else map_option Inr
             (sweep (ds\<lparr>entries := (entries ds)
                       [entry := (entries ds ! entry)\<lparr>count := count (entries ds ! entry) - 1\<rparr>]\<rparr>)
                    head))"

text \<open>\<open>ds_add_work\<close> returns \<open>r\<close> and the new set; \<open>work\<close> is the mapping's list node.\<close>

definition ds_add_work :: "mapping_ptr \<Rightarrow> deferred_set \<Rightarrow> int \<times> deferred_set" where
  "ds_add_work work ds =
     (if sweeper ds = current_entry ds \<and> count (entries ds ! current_entry ds) = 0
      then (0, ds)
      else
        (let ds1 = ds\<lparr>entries := (entries ds)
                     [current_entry ds := (entries ds ! current_entry ds)
                        \<lparr>work_items := work # work_items (entries ds ! current_entry ds)\<rparr>]\<rparr>;
             next_entry = ds_next (current_entry ds1)
         in (1, if count (entries ds1 ! next_entry) = 0
                then ds1\<lparr>current_entry := next_entry\<rparr> else ds1)))"

text \<open>The indices are inside the array.\<close>

definition ds_wf :: "deferred_set \<Rightarrow> bool" where
  "ds_wf ds \<longleftrightarrow>
     length (entries ds) = DEFERRED_SET_SIZE \<and>
     current_entry ds < DEFERRED_SET_SIZE \<and> sweeper ds < DEFERRED_SET_SIZE"


subsection \<open>Error numbers, bios and the calls out of the driver\<close>

text \<open>
  The error numbers the driver tells apart. A kernel function that returns \<open>0\<close> or
  \<open>-E\<close> is modelled with \<open>errno option\<close> (\<open>None\<close> is 0); one that also fills in a
  result with \<open>errno + 'a\<close>.
\<close>

datatype errno = EIO | ENOMEM | EINVAL | ENOSPC | ENODATA | EWOULDBLOCK

text \<open>\<open>struct thin_c\<close>: \<open>pool_dev\<close> stands for \<open>tc->pool_dev->bdev\<close>, \<open>td\<close> for the
  handle of the thin device in the metadata. There is one pool, so \<open>tc->pool\<close> is the
  pool state that every function takes and returns.\<close>

record thin_c =
  pool_dev :: nat
  dev_id :: "64 word"
  td :: nat

text \<open>The functions a bio's \<open>bi_end_io\<close> can point to.\<close>

datatype bio_end_io = Host_end_io nat | Overwrite_endio | Shared_read_endio

text \<open>What \<open>dm_get_mapinfo(bio)->ptr\<close> points to.\<close>

datatype map_info = Null_ptr | Thin_ptr thin_c | Mapping_ptr mapping_ptr | Hook_ptr hook_ptr

record bio =
  bi_sector :: "64 word"
  bi_bdev :: nat
  bi_rw :: "32 word"
  bi_size :: "32 word"
  bi_end_io :: bio_end_io
  mapinfo_ptr :: map_info

text \<open>
  The calls the driver makes out to the kernel, the copier and the metadata store that
  change something there, in the order they are made.
\<close>

datatype event =
    Queue_work
  | Generic_make_request bio_ptr
  | Bio_endio bio_ptr "errno option"
  | Dm_table_event
  | Dm_pool_commit_metadata
  | Dm_pool_alloc_data_block
  | Dm_thin_insert_block nat "64 word" "64 word"
  | Dm_kcopyd_copy "64 word" "64 word" mapping_ptr
  | Dm_kcopyd_zero "64 word" mapping_ptr
  | Dm_pool_resize_data_dev "64 word"
  | Dm_pool_rebind_metadata_device nat
  | Pool_table_insert

record dm_thin_lookup_result =
  lookup_block :: "64 word"
  shared :: bool

text \<open>
  What is not in dm-thin.c is a parameter: the flag bits \<open>REQ_FLUSH\<close> and \<open>REQ_FUA\<close>,
  \<open>SECTOR_SHIFT\<close>, the macro \<open>dm_sector_div_up\<close>, and what the metadata store and the
  copier answer when they are called (each function below makes each call at most once).
  \<open>dm_thin_find_block\<close> takes the device, the block and \<open>can_block\<close>.
\<close>

record env =
  REQ_FLUSH :: "32 word"
  REQ_FUA :: "32 word"
  REQ_WRITE :: "32 word"
  SECTOR_SHIFT :: nat
  dm_sector_div_up :: "64 word \<Rightarrow> 32 word \<Rightarrow> 64 word"
  dm_thin_find_block :: "nat \<Rightarrow> 64 word \<Rightarrow> bool \<Rightarrow> errno + dm_thin_lookup_result"
  dm_thin_insert_block :: "nat \<Rightarrow> 64 word \<Rightarrow> 64 word \<Rightarrow> errno option"
  dm_pool_commit_metadata :: "errno option"
  dm_pool_get_free_block_count :: "errno + 64 word"
  dm_pool_alloc_data_block :: "errno + 64 word"
  dm_pool_get_data_dev_size :: "errno + 64 word"
  dm_pool_resize_data_dev :: "64 word \<Rightarrow> errno option"
  dm_kcopyd_copy :: "errno option"
  dm_kcopyd_zero :: "errno option"

subsection \<open>Bio prison\<close>

text \<open>
  \<open>struct cell_key\<close>. \<open>dm_thin_id\<close> is a 64-bit integer (\<open>read_dev_id\<close> fills it through an
  \<open>unsigned long long *\<close>), which the ARM ABI of this tree aligns on eight bytes: between
  \<open>virtual\<close> and \<open>dev\<close> lie four bytes that belong to the structure and to no member.
  They are \<open>pad\<close>. No assignment writes them; \<open>memcpy\<close> and \<open>memcmp\<close> over
  \<open>sizeof(struct cell_key)\<close> copy and compare them.
\<close>

record cell_key =
  virtual :: int
  pad :: "32 word"
  dev :: "64 word"
  block :: "64 word"

text \<open>
  \<open>struct cell\<close>. Its \<open>count\<close> is \<open>cell_count\<close> here (\<open>deferred_entry\<close> has a
  \<open>count\<close> too); \<open>bios\<close> is the \<open>bio_list\<close>. The node \<open>list\<close> is the cell's place in
  its bucket, the back pointer \<open>prison\<close> is not modelled.
\<close>

record cell =
  key :: cell_key
  cell_count :: "32 word"
  bios :: "bio_ptr list"

text \<open>
  \<open>struct bio_prison\<close>: \<open>cells\<close> is the array of buckets, each the list of the cells
  linked in it; \<open>cell_pool\<close> is the memory of the cells that are allocated.
\<close>

record bio_prison =
  nr_buckets :: "32 word"
  hash_mask :: "32 word"
  cells :: "cell_ptr list list"
  cell_pool :: "cell_ptr \<rightharpoonup> cell"

text \<open>\<open>prison_create\<close>, from the number of buckets that \<open>calc_nr_buckets\<close> gives.\<close>

definition prison_create :: "32 word \<Rightarrow> bio_prison" where
  "prison_create n =
     \<lparr>nr_buckets = n, hash_mask = n - 1, cells = replicate (unat n) [], cell_pool = Map.empty\<rparr>"

definition hash_key :: "bio_prison \<Rightarrow> cell_key \<Rightarrow> 32 word" where
  "hash_key prison k =
     ucast ((block k * (4294967291 :: 64 word)) AND (ucast (hash_mask prison) :: 64 word))"

text \<open>\<open>__search_bucket\<close>: \<open>memcmp\<close> over the whole of the two keys is equality of the
  three members and of the padding.\<close>

definition search_bucket :: "bio_prison \<Rightarrow> cell_ptr list \<Rightarrow> cell_key \<Rightarrow> cell_ptr option" where
  "search_bucket prison bucket k =
     find (\<lambda>c. case cell_pool prison c of Some cl \<Rightarrow> key cl = k | None \<Rightarrow> False) bucket"

text \<open>
  \<open>mempool_alloc\<close> hands out an address that is not in use; what the memory holds is
  not read before it is written. \<open>mempool_free\<close> gives the address back.
\<close>

definition blank_cell :: cell where
  "blank_cell = \<lparr>key = \<lparr>virtual = 0, pad = 0, dev = 0, block = 0\<rparr>, cell_count = 0, bios = []\<rparr>"

definition mempool_alloc_cell :: "cell_ptr \<Rightarrow> bio_prison \<Rightarrow> bio_prison" where
  "mempool_alloc_cell c prison = prison\<lparr>cell_pool := (cell_pool prison)(c \<mapsto> blank_cell)\<rparr>"

definition mempool_free_cell :: "cell_ptr \<Rightarrow> bio_prison \<Rightarrow> bio_prison" where
  "mempool_free_cell c prison = prison\<lparr>cell_pool := (cell_pool prison)(c := None)\<rparr>"

text \<open>
  The end of \<open>bio_detain\<close>, under the lock: \<open>r = cell->count++\<close> (an \<open>unsigned\<close> read
  into an \<open>int\<close>) and \<open>bio_list_add\<close>.
\<close>

definition detain_add :: "cell_ptr \<Rightarrow> bio_ptr \<Rightarrow> bio_prison \<Rightarrow> int \<times> bio_prison" where
  "detain_add c inmate prison =
     (case cell_pool prison c of
        None \<Rightarrow> (0, prison)
      | Some cl \<Rightarrow>
          (sint (cell_count cl),
           prison\<lparr>cell_pool := (cell_pool prison)
             (c \<mapsto> cl\<lparr>cell_count := cell_count cl + 1, bios := bios cl @ [inmate]\<rparr>)\<rparr>))"

text \<open>
  The second critical section of \<open>bio_detain\<close>, entered with \<open>cell2\<close> allocated: search
  again; if the cell is still missing, initialise \<open>cell2\<close> and link it at the head of
  the bucket; add the inmate; after the lock, free \<open>cell2\<close> if it was not used.
\<close>

definition detain_insert ::
  "cell_key \<Rightarrow> bio_ptr \<Rightarrow> cell_ptr \<Rightarrow> bio_prison \<Rightarrow> int \<times> cell_ptr \<times> bio_prison" where
  "detain_insert k inmate cell2 prison =
     (let hash = unat (hash_key prison k)
      in case search_bucket prison (cells prison ! hash) k of
           Some c \<Rightarrow>
             (let (r, prison1) = detain_add c inmate prison
              in (r, c, mempool_free_cell cell2 prison1))
         | None \<Rightarrow>
             (let prison1 = prison\<lparr>
                    cell_pool := (cell_pool prison)
                      (cell2 \<mapsto> \<lparr>key = k, cell_count = 0, bios = []\<rparr>),
                    cells := (cells prison)[hash := cell2 # (cells prison ! hash)]\<rparr>;
                  (r, prison2) = detain_add cell2 inmate prison1
              in (r, cell2, prison2)))"

text \<open>
  \<open>bio_detain\<close> when nothing else runs between its two critical sections. \<open>new_cell\<close>
  is the address \<open>mempool_alloc\<close> returns if it is called. The result is \<open>r\<close>, \<open>*ref\<close>
  and the prison.
\<close>

definition bio_detain ::
  "cell_ptr \<Rightarrow> cell_key \<Rightarrow> bio_ptr \<Rightarrow> bio_prison \<Rightarrow> panic + int \<times> cell_ptr \<times> bio_prison" where
  "bio_detain new_cell k inmate prison =
     (let hash = hash_key prison k
      in if hash > nr_buckets prison then Inl BUG
         else case search_bucket prison (cells prison ! unat hash) k of
                Some c \<Rightarrow>
                  (let (r, prison1) = detain_add c inmate prison in Inr (r, c, prison1))
              | None \<Rightarrow>
                  Inr (detain_insert k inmate new_cell (mempool_alloc_cell new_cell prison)))"

text \<open>
  \<open>__cell_release\<close> and \<open>cell_release\<close>: unlink the cell from its bucket, put its bios
  at the end of \<open>inmates\<close> (no caller passes \<open>NULL\<close>), free the cell.
\<close>

definition cell_release :: "cell_ptr \<Rightarrow> bio_ptr list \<Rightarrow> bio_prison \<Rightarrow> bio_ptr list \<times> bio_prison" where
  "cell_release c inmates prison =
     (inmates @ (case cell_pool prison c of None \<Rightarrow> [] | Some cl \<Rightarrow> bios cl),
      mempool_free_cell c (prison\<lparr>cells := map (remove1 c) (cells prison)\<rparr>))"

text \<open>\<open>cell_release_singleton\<close>: the two \<open>BUG_ON\<close>s check that \<open>bio\<close> was alone.\<close>

definition cell_release_singleton :: "cell_ptr \<Rightarrow> bio_ptr \<Rightarrow> bio_prison \<Rightarrow> panic + bio_prison" where
  "cell_release_singleton c b prison =
     (let (bs, prison1) = cell_release c [] prison
      in if bs = [b] then Inr prison1 else Inl BUG)"


subsection \<open>The prison's table in every reachable state\<close>

text \<open>
  The shape of the table: the mask fits the number of buckets; a bucket links a cell at
  most once; a linked cell is allocated, sits in the bucket its key hashes to and holds
  at least one bio; within a bucket no two cells have the same key.
\<close>

definition prison_inv :: "bio_prison \<Rightarrow> bool" where
  "prison_inv pr \<longleftrightarrow>
     nr_buckets pr \<noteq> 0 \<and> hash_mask pr = nr_buckets pr - 1 \<and>
     length (cells pr) = unat (nr_buckets pr) \<and>
     (\<forall>h < length (cells pr).
        distinct (cells pr ! h) \<and>
        (\<forall>c \<in> set (cells pr ! h).
           \<exists>cl. cell_pool pr c = Some cl \<and> unat (hash_key pr (key cl)) = h \<and> bios cl \<noteq> []) \<and>
        (\<forall>c1 \<in> set (cells pr ! h). \<forall>c2 \<in> set (cells pr ! h).
           map_option key (cell_pool pr c1) = map_option key (cell_pool pr c2) \<longrightarrow> c1 = c2))"

text \<open>Each linked cell's \<open>count\<close> is the length of its bio list and fits an \<open>int\<close>.\<close>

definition cell_counts_ok :: "bio_prison \<Rightarrow> bool" where
  "cell_counts_ok pr \<longleftrightarrow>
     (\<forall>c \<in> set (concat (cells pr)). \<forall>cl. cell_pool pr c = Some cl \<longrightarrow>
        unat (cell_count cl) = length (bios cl) \<and> length (bios cl) < 2 ^ 31)"

text \<open>
  The prison with callers of \<open>bio_detain\<close> running side by side. Each step is one
  critical section (or the \<open>mempool_alloc\<close> between the two of \<open>bio_detain\<close>). Beside
  the prison the state holds the callers that found no cell and have dropped the lock
  (key and inmate), and the callers that hold a fresh \<open>cell2\<close> and wait for the lock.
  Cells are released by those who hold a reference, which \<open>bio_detain\<close> only gives
  to cells in the table.
\<close>

inductive_set prison_reach ::
  "(bio_prison \<times> (cell_key \<times> bio_ptr) list \<times> (cell_key \<times> bio_ptr \<times> cell_ptr) list) set" where
  create: "n \<noteq> 0 \<Longrightarrow> (prison_create n, [], []) \<in> prison_reach"
| detain_found:
    "(pr, ws, as) \<in> prison_reach \<Longrightarrow>
     search_bucket pr (cells pr ! unat (hash_key pr k)) k = Some c \<Longrightarrow>
     (snd (detain_add c inmate pr), ws, as) \<in> prison_reach"
| detain_unlock:
    "(pr, ws, as) \<in> prison_reach \<Longrightarrow>
     search_bucket pr (cells pr ! unat (hash_key pr k)) k = None \<Longrightarrow>
     (pr, (k, inmate) # ws, as) \<in> prison_reach"
| detain_alloc:
    "(pr, ws, as) \<in> prison_reach \<Longrightarrow> (k, inmate) \<in> set ws \<Longrightarrow> cell_pool pr cell2 = None \<Longrightarrow>
     (mempool_alloc_cell cell2 pr, remove1 (k, inmate) ws, (k, inmate, cell2) # as) \<in> prison_reach"
| detain_relock:
    "(pr, ws, as) \<in> prison_reach \<Longrightarrow> (k, inmate, cell2) \<in> set as \<Longrightarrow>
     (snd (snd (detain_insert k inmate cell2 pr)), ws, remove1 (k, inmate, cell2) as) \<in> prison_reach"
| release:
    "(pr, ws, as) \<in> prison_reach \<Longrightarrow> c \<in> set (concat (cells pr)) \<Longrightarrow>
     (snd (cell_release c inmates pr), ws, as) \<in> prison_reach"

text \<open>The callers that wait with a \<open>cell2\<close> hold cells that are allocated, not in
  the table and all different.\<close>

definition waiting_ok :: "bio_prison \<Rightarrow> (cell_key \<times> bio_ptr \<times> cell_ptr) list \<Rightarrow> bool" where
  "waiting_ok pr as \<longleftrightarrow>
     distinct (map (\<lambda>a. snd (snd a)) as) \<and>
     (\<forall>a \<in> set as. cell_pool pr (snd (snd a)) \<noteq> None \<and> snd (snd a) \<notin> set (concat (cells pr)))"


text \<open>
  An example of the race: in an empty prison of one bucket two callers detain the bios
  10 and 11 under the same key; both find no cell and are given the cells 3 and 4. In
  \<open>race_prison\<close> the first of them has entered its second critical section.
\<close>

definition race_key :: cell_key where
  "race_key = \<lparr>virtual = 1, pad = 0, dev = 7, block = 0\<rparr>"

definition race_prison :: bio_prison where
  "race_prison =
     snd (snd (detain_insert race_key 10 3
                 (mempool_alloc_cell 4 (mempool_alloc_cell 3 (prison_create 1)))))"


subsection \<open>The pool\<close>

text \<open>
  \<open>struct new_mapping\<close>. \<open>list_is_empty\<close> is \<open>list_empty(&m->list)\<close>: true after
  \<open>INIT_LIST_HEAD\<close>, false once \<open>list_add\<close> has linked the node; the lists themselves
  are the work items of the deferred set, the pool's prepared mappings and the local
  lists of \<open>shared_read_endio\<close> and \<open>process_prepared_mappings\<close>.
\<close>

record new_mapping =
  list_is_empty :: bool
  prepared :: bool
  tc :: thin_c
  virt_block :: "64 word"
  data_block :: "64 word"
  cell :: cell_ptr
  err :: "errno option"
  bio :: "bio_ptr option"
  saved_bi_end_io :: bio_end_io

text \<open>\<open>struct endio_hook\<close>; \<open>entry\<close> is the index of the deferred entry.\<close>

record endio_hook =
  hook_tc :: thin_c
  hook_saved_bi_end_io :: bio_end_io
  entry :: nat

text \<open>
  \<open>struct pool\<close>, with the memory its pointers point into (\<open>bio_mem\<close>, and the two
  mempools holding the allocated mappings and hooks) and the calls made so far
  (\<open>events\<close>). \<open>low_water_triggered\<close> is an \<open>int\<close> that only holds 0 or 1. The
  fields used for set-up only (\<open>ti\<close>, \<open>pool_md\<close>, \<open>pmd\<close>, \<open>copier\<close>, \<open>wq\<close>,
  \<open>ref_count\<close>) are left out.
\<close>

record pool =
  block_shift :: nat
  offset_mask :: "64 word"
  sectors_per_block :: "32 word"
  low_water_mark :: "64 word"
  zero_new_blocks :: bool
  prison :: bio_prison
  deferred_bios :: "bio_ptr list"
  prepared_mappings :: "mapping_ptr list"
  low_water_triggered :: bool
  retry_list :: "bio_ptr list"
  ds :: deferred_set
  next_mapping :: "mapping_ptr option"
  bio_mem :: "bio_ptr \<Rightarrow> bio"
  mapping_pool :: "mapping_ptr \<rightharpoonup> new_mapping"
  endio_hook_pool :: "hook_ptr \<rightharpoonup> endio_hook"
  events :: "event list"

definition emit :: "event \<Rightarrow> pool \<Rightarrow> pool" where
  "emit e p = p\<lparr>events := events p @ [e]\<rparr>"

definition upd_bio :: "bio_ptr \<Rightarrow> (bio \<Rightarrow> bio) \<Rightarrow> pool \<Rightarrow> pool" where
  "upd_bio b f p = p\<lparr>bio_mem := (bio_mem p)(b := f (bio_mem p b))\<rparr>"

definition upd_mapping :: "mapping_ptr \<Rightarrow> (new_mapping \<Rightarrow> new_mapping) \<Rightarrow> pool \<Rightarrow> pool" where
  "upd_mapping m f p = p\<lparr>mapping_pool := (mapping_pool p)(m := map_option f (mapping_pool p m))\<rparr>"

definition get_bio_block :: "pool \<Rightarrow> bio_ptr \<Rightarrow> 64 word" where
  "get_bio_block p b = drop_bit (block_shift p) (bi_sector (bio_mem p b))"

definition remap :: "thin_c \<Rightarrow> bio_ptr \<Rightarrow> 64 word \<Rightarrow> pool \<Rightarrow> pool" where
  "remap tc' b blk p =
     upd_bio b (\<lambda>x. x\<lparr>bi_bdev := pool_dev tc',
                       bi_sector := push_bit (block_shift p) blk + (bi_sector x AND offset_mask p)\<rparr>) p"

definition wake_worker :: "pool \<Rightarrow> pool" where
  "wake_worker p = emit Queue_work p"

subsection \<open>Bio endio functions\<close>

definition maybe_add_mapping :: "mapping_ptr \<Rightarrow> pool \<Rightarrow> pool" where
  "maybe_add_mapping m p =
     (case mapping_pool p m of
        None \<Rightarrow> p
      | Some mp \<Rightarrow>
          if list_is_empty mp \<and> prepared mp
          then wake_worker
                 (upd_mapping m (\<lambda>x. x\<lparr>list_is_empty := False\<rparr>)
                    (p\<lparr>prepared_mappings := m # prepared_mappings p\<rparr>))
          else p)"

text \<open>\<open>copy_complete\<close>; \<open>context\<close> is the mapping.\<close>

definition copy_complete :: "int \<Rightarrow> nat \<Rightarrow> mapping_ptr \<Rightarrow> pool \<Rightarrow> pool" where
  "copy_complete read_err write_err m p =
     maybe_add_mapping m
       (upd_mapping m (\<lambda>x. x\<lparr>prepared := True\<rparr>)
          (upd_mapping m (\<lambda>x. x\<lparr>err := (if read_err \<noteq> 0 \<or> write_err \<noteq> 0 then Some EIO else None)\<rparr>) p))"

definition overwrite_endio :: "bio_ptr \<Rightarrow> errno option \<Rightarrow> pool \<Rightarrow> pool" where
  "overwrite_endio b e p =
     (case mapinfo_ptr (bio_mem p b) of
        Mapping_ptr m \<Rightarrow>
          maybe_add_mapping m
            (upd_mapping m (\<lambda>x. x\<lparr>prepared := True\<rparr>) (upd_mapping m (\<lambda>x. x\<lparr>err := e\<rparr>) p))
      | _ \<Rightarrow> p)"

text \<open>The second critical section of \<open>shared_read_endio\<close>, under the pool's lock: each
  mapping is taken off the local list and given to \<open>__maybe_add_mapping\<close>; then the
  hook is freed.\<close>

definition shared_read_endio_add :: "hook_ptr \<Rightarrow> mapping_ptr list \<Rightarrow> pool \<Rightarrow> pool" where
  "shared_read_endio_add h mappings p =
     (let p1 = fold (\<lambda>m q. maybe_add_mapping m (upd_mapping m (\<lambda>x. x\<lparr>list_is_empty := True\<rparr>) q))
                 mappings p
      in p1\<lparr>endio_hook_pool := (endio_hook_pool p1)(h := None)\<rparr>)"

text \<open>
  \<open>bio_endio(bio, error)\<close> is the kernel's: the call is the event \<open>Bio_endio\<close>, and it
  calls \<open>bio->bi_end_io(bio, error)\<close>. A function of the bio's owner is outside the
  driver; the two functions of the driver are run. \<open>shared_read_endio\<close> is written out
  here, because it puts the saved function back and calls \<open>bio_endio\<close> again; then
  \<open>ds_dec\<close> into its local list, then its second critical section. The call need not
  return (\<open>ds_dec\<close> sweeps), so the result is an option.
\<close>

partial_function (option) bio_endio ::
  "bio_ptr \<Rightarrow> errno option \<Rightarrow> pool \<Rightarrow> (panic + pool) option" where
  "bio_endio b e p =
     (case bi_end_io (bio_mem p b) of
        Host_end_io f \<Rightarrow> Some (Inr (emit (Bio_endio b e) p))
      | Overwrite_endio \<Rightarrow> Some (Inr (overwrite_endio b e (emit (Bio_endio b e) p)))
      | Shared_read_endio \<Rightarrow>
          (case mapinfo_ptr (bio_mem p b) of
             Hook_ptr h \<Rightarrow>
               (case endio_hook_pool p h of
                  None \<Rightarrow> Some (Inl FAULT)
                | Some hk \<Rightarrow>
                    Option.bind
                      (bio_endio b e
                         (upd_bio b (\<lambda>x. x\<lparr>bi_end_io := hook_saved_bi_end_io hk\<rparr>)
                            (emit (Bio_endio b e) p)))
                      (\<lambda>r. case r of
                             Inl bug \<Rightarrow> Some (Inl bug)
                           | Inr p1 \<Rightarrow>
                               (case ds_dec (entry hk) [] (ds p1) of
                                  None \<Rightarrow> None
                                | Some (Inl bug) \<Rightarrow> Some (Inl bug)
                                | Some (Inr (ds', mappings)) \<Rightarrow>
                                    Some (Inr (shared_read_endio_add h mappings (p1\<lparr>ds := ds'\<rparr>))))))
           | _ \<Rightarrow> Some (Inl FAULT)))"



text \<open>One call after another: what follows runs on the pool the call leaves, if the call
  returns and has not stopped the kernel.\<close>

definition and_then ::
  "(panic + pool) option \<Rightarrow> (pool \<Rightarrow> (panic + pool) option) \<Rightarrow> (panic + pool) option" where
  "and_then r f = (case r of None \<Rightarrow> None | Some (Inl bug) \<Rightarrow> Some (Inl bug) | Some (Inr p) \<Rightarrow> f p)"

text \<open>\<open>bio_io_error(bio)\<close> is \<open>bio_endio(bio, -EIO)\<close>.\<close>

definition bio_io_error :: "bio_ptr \<Rightarrow> pool \<Rightarrow> (panic + pool) option" where
  "bio_io_error b p = bio_endio b (Some EIO) p"

text \<open>\<open>remap_and_issue\<close> (it stands before the endio functions in the file).\<close>

definition remap_and_issue ::
  "env \<Rightarrow> thin_c \<Rightarrow> bio_ptr \<Rightarrow> 64 word \<Rightarrow> pool \<Rightarrow> (panic + pool) option" where
  "remap_and_issue env tc' b blk p =
     (if bi_rw (bio_mem p b) AND (REQ_FLUSH env OR REQ_FUA env) \<noteq> 0
      then (case dm_pool_commit_metadata env of
              Some r \<Rightarrow> bio_io_error b (emit Dm_pool_commit_metadata p)
            | None \<Rightarrow>
                Some (Inr (emit (Generic_make_request b)
                             (remap tc' b blk (emit Dm_pool_commit_metadata p)))))
      else Some (Inr (emit (Generic_make_request b) (remap tc' b blk p))))"


subsection \<open>Workqueue\<close>

definition io_covers_block :: "env \<Rightarrow> pool \<Rightarrow> bio_ptr \<Rightarrow> bool" where
  "io_covers_block env p b \<longleftrightarrow>
     bi_sector (bio_mem p b) AND offset_mask p = 0 \<and>
     bi_size (bio_mem p b) = push_bit (SECTOR_SHIFT env) (sectors_per_block p)"

text \<open>\<open>save_and_set_endio\<close> returns what it saves.\<close>

definition save_and_set_endio :: "bio_ptr \<Rightarrow> bio_end_io \<Rightarrow> pool \<Rightarrow> bio_end_io \<times> pool" where
  "save_and_set_endio b fn p = (bi_end_io (bio_mem p b), upd_bio b (\<lambda>x. x\<lparr>bi_end_io := fn\<rparr>) p)"

definition blank_mapping :: new_mapping where
  "blank_mapping = \<lparr>list_is_empty = False, prepared = False,
     tc = \<lparr>pool_dev = 0, dev_id = 0, td = 0\<rparr>, virt_block = 0, data_block = 0, cell = 0,
     err = None, bio = None, saved_bi_end_io = Host_end_io 0\<rparr>"

text \<open>\<open>ensure_next_mapping\<close>; \<open>alloc\<close> is what \<open>mempool_alloc(GFP_ATOMIC)\<close> returns if it
  is called: an address not in use, or \<open>NULL\<close>.\<close>

definition ensure_next_mapping :: "mapping_ptr option \<Rightarrow> pool \<Rightarrow> errno option \<times> pool" where
  "ensure_next_mapping alloc p =
     (if next_mapping p \<noteq> None then (None, p)
      else case alloc of
             None \<Rightarrow> (Some ENOMEM, p)
           | Some m \<Rightarrow>
               (None, p\<lparr>next_mapping := Some m,
                        mapping_pool := (mapping_pool p)(m \<mapsto> blank_mapping)\<rparr>))"

definition get_next_mapping :: "pool \<Rightarrow> panic + mapping_ptr \<times> pool" where
  "get_next_mapping p =
     (case next_mapping p of
        None \<Rightarrow> Inl BUG
      | Some r \<Rightarrow> Inr (r, p\<lparr>next_mapping := None\<rparr>))"

text \<open>\<open>cell_error\<close>: release the cell and fail every bio that was in it.\<close>

definition cell_error :: "cell_ptr \<Rightarrow> pool \<Rightarrow> (panic + pool) option" where
  "cell_error c p =
     (let (bs, prison1) = cell_release c [] (prison p)
      in fold (\<lambda>b r. and_then r (bio_io_error b)) bs (Some (Inr (p\<lparr>prison := prison1\<rparr>))))"

text \<open>The assignments that open \<open>schedule_copy\<close> and \<open>schedule_zero\<close>.\<close>

definition init_mapping ::
  "mapping_ptr \<Rightarrow> thin_c \<Rightarrow> 64 word \<Rightarrow> 64 word \<Rightarrow> cell_ptr \<Rightarrow> pool \<Rightarrow> pool" where
  "init_mapping m tc' virt data_dest c p =
     upd_mapping m (\<lambda>x. x\<lparr>list_is_empty := True, prepared := False, tc := tc',
                          virt_block := virt, data_block := data_dest, cell := c,
                          err := None, bio := None\<rparr>) p"

text \<open>The branch that hooks the bio, in \<open>schedule_copy\<close> and in \<open>schedule_zero\<close>.\<close>

definition hook_overwrite ::
  "env \<Rightarrow> thin_c \<Rightarrow> mapping_ptr \<Rightarrow> bio_ptr \<Rightarrow> 64 word \<Rightarrow> pool \<Rightarrow> (panic + pool) option" where
  "hook_overwrite env tc' m b data_dest p =
     (let p1 = upd_mapping m (\<lambda>x. x\<lparr>bio := Some b\<rparr>) p;
          (save, p2) = save_and_set_endio b Overwrite_endio p1;
          p3 = upd_mapping m (\<lambda>x. x\<lparr>saved_bi_end_io := save\<rparr>) p2;
          p4 = upd_bio b (\<lambda>x. x\<lparr>mapinfo_ptr := Mapping_ptr m\<rparr>) p3
      in remap_and_issue env tc' b data_dest p4)"

definition mempool_free_mapping :: "mapping_ptr \<Rightarrow> pool \<Rightarrow> pool" where
  "mempool_free_mapping m p = p\<lparr>mapping_pool := (mapping_pool p)(m := None)\<rparr>"

text \<open>
  \<open>schedule_copy\<close>. \<open>ds_add_work\<close> links the mapping's node exactly when it returns 1,
  so \<open>list_is_empty\<close> follows its result.
\<close>

definition schedule_copy ::
  "env \<Rightarrow> thin_c \<Rightarrow> 64 word \<Rightarrow> 64 word \<Rightarrow> 64 word \<Rightarrow> cell_ptr \<Rightarrow> bio_ptr \<Rightarrow> pool
     \<Rightarrow> (panic + pool) option" where
  "schedule_copy env tc' virt data_origin data_dest c b p =
     (case get_next_mapping p of
        Inl bug \<Rightarrow> Some (Inl bug)
      | Inr (m, p1) \<Rightarrow>
          (let p2 = init_mapping m tc' virt data_dest c p1;
               (r, ds') = ds_add_work m (ds p2);
               p3 = upd_mapping m (\<lambda>x. x\<lparr>list_is_empty := (r = 0)\<rparr>) (p2\<lparr>ds := ds'\<rparr>)
           in if io_covers_block env p3 b
              then hook_overwrite env tc' m b data_dest p3
              else
                (let p4 = emit (Dm_kcopyd_copy (data_origin * ucast (sectors_per_block p3))
                                  (data_dest * ucast (sectors_per_block p3)) m) p3
                 in case dm_kcopyd_copy env of
                      None \<Rightarrow> Some (Inr p4)
                    | Some e \<Rightarrow> cell_error c (mempool_free_mapping m p4))))"

definition schedule_zero ::
  "env \<Rightarrow> thin_c \<Rightarrow> 64 word \<Rightarrow> 64 word \<Rightarrow> cell_ptr \<Rightarrow> bio_ptr \<Rightarrow> pool
     \<Rightarrow> (panic + pool) option" where
  "schedule_zero env tc' virt data_blk c b p =
     (case get_next_mapping p of
        Inl bug \<Rightarrow> Some (Inl bug)
      | Inr (m, p1) \<Rightarrow>
          (let p2 = init_mapping m tc' virt data_blk c p1
           in if \<not> zero_new_blocks p2 \<or> io_covers_block env p2 b
              then hook_overwrite env tc' m b data_blk p2
              else
                (let p3 = emit (Dm_kcopyd_zero (data_blk * ucast (sectors_per_block p2)) m) p2
                 in case dm_kcopyd_zero env of
                      None \<Rightarrow> Some (Inr p3)
                    | Some e \<Rightarrow> cell_error c (mempool_free_mapping m p3))))"

text \<open>
  \<open>retry_later\<close> takes the pool from the \<open>thin_c\<close> that the bio's map context points to
  (\<open>thin_bio_map\<close> puts it there); the hooks put a mapping or a hook there instead.
\<close>

definition retry_later :: "bio_ptr \<Rightarrow> pool \<Rightarrow> panic + pool" where
  "retry_later b p =
     (case mapinfo_ptr (bio_mem p b) of
        Thin_ptr tc' \<Rightarrow> Inr (p\<lparr>retry_list := retry_list p @ [b]\<rparr>)
      | _ \<Rightarrow> Inl FAULT)"

text \<open>\<open>alloc_data_block\<close> returns \<open>r\<close> and \<open>*result\<close> as one value.\<close>

definition alloc_data_block :: "env \<Rightarrow> thin_c \<Rightarrow> pool \<Rightarrow> (errno + 64 word) \<times> pool" where
  "alloc_data_block env tc' p =
     (case dm_pool_get_free_block_count env of
        Inl r \<Rightarrow> (Inl r, p)
      | Inr free_blocks \<Rightarrow>
          (let p1 = (if free_blocks \<le> low_water_mark p \<and> \<not> low_water_triggered p
                     then emit Dm_table_event (p\<lparr>low_water_triggered := True\<rparr>)
                     else p);
               p2 = emit Dm_pool_alloc_data_block p1
           in case dm_pool_alloc_data_block env of
                Inl r \<Rightarrow> (Inl r, p2)
              | Inr result \<Rightarrow> (Inr result, p2)))"

definition no_space :: "cell_ptr \<Rightarrow> pool \<Rightarrow> panic + pool" where
  "no_space c p =
     (let (bs, prison1) = cell_release c [] (prison p)
      in fold (\<lambda>b r. case r of Inl bug \<Rightarrow> Inl bug | Inr q \<Rightarrow> retry_later b q) bs
           (Inr (p\<lparr>prison := prison1\<rparr>)))"

text \<open>\<open>break_sharing\<close>; \<open>data_origin\<close> is \<open>lookup_result->block\<close>.\<close>

definition break_sharing ::
  "env \<Rightarrow> thin_c \<Rightarrow> bio_ptr \<Rightarrow> 64 word \<Rightarrow> 64 word \<Rightarrow> cell_ptr \<Rightarrow> pool
     \<Rightarrow> (panic + pool) option" where
  "break_sharing env tc' b blk data_origin c p =
     (case alloc_data_block env tc' p of
        (Inr data_blk, p1) \<Rightarrow> schedule_copy env tc' blk data_origin data_blk c b p1
      | (Inl ENOSPC, p1) \<Rightarrow> Some (no_space c p1)
      | (Inl r, p1) \<Rightarrow> cell_error c p1)"

definition provision_block ::
  "env \<Rightarrow> thin_c \<Rightarrow> bio_ptr \<Rightarrow> 64 word \<Rightarrow> cell_ptr \<Rightarrow> pool \<Rightarrow> (panic + pool) option" where
  "provision_block env tc' b blk c p =
     (case alloc_data_block env tc' p of
        (Inr data_blk, p1) \<Rightarrow> schedule_zero env tc' blk data_blk c b p1
      | (Inl ENOSPC, p1) \<Rightarrow> Some (no_space c p1)
      | (Inl r, p1) \<Rightarrow> cell_error c p1)"


text \<open>
  The read branch of \<open>process_shared_bio\<close>: a hook from the mempool (\<open>h\<close> is the
  address \<open>mempool_alloc\<close> returns), the deferred set incremented, the bio's completion
  hooked.
\<close>

definition hook_shared_read :: "hook_ptr \<Rightarrow> thin_c \<Rightarrow> bio_ptr \<Rightarrow> pool \<Rightarrow> pool" where
  "hook_shared_read h tc' b p =
     (let (e, ds') = ds_inc (ds p);
          (save, p1) = save_and_set_endio b Shared_read_endio (p\<lparr>ds := ds'\<rparr>);
          p2 = p1\<lparr>endio_hook_pool := (endio_hook_pool p1)
                  (h \<mapsto> \<lparr>hook_tc = tc', hook_saved_bi_end_io = save, entry = e\<rparr>)\<rparr>
      in upd_bio b (\<lambda>x. x\<lparr>mapinfo_ptr := Hook_ptr h\<rparr>) p2)"

text \<open>\<open>build_data_key\<close> and \<open>build_virtual_key\<close> fill in the three members of the
  key they are given, the caller's local \<open>struct cell_key key\<close>, which is not initialised:
  \<open>k\<close> is what that memory holds. \<open>dm_thin_dev_id(td)\<close> is \<open>dev_id\<close>.\<close>

definition build_data_key :: "thin_c \<Rightarrow> 64 word \<Rightarrow> cell_key \<Rightarrow> cell_key" where
  "build_data_key tc' b k = k\<lparr>virtual := 0, dev := dev_id tc', block := b\<rparr>"

definition build_virtual_key :: "thin_c \<Rightarrow> 64 word \<Rightarrow> cell_key \<Rightarrow> cell_key" where
  "build_virtual_key tc' b k = k\<lparr>virtual := 1, dev := dev_id tc', block := b\<rparr>"

text \<open>\<open>process_shared_bio\<close>; \<open>k\<close> is what its local \<open>key\<close> holds on entry, and
  \<open>bio_data_dir(bio) == WRITE\<close> tests the \<open>REQ_WRITE\<close> bit.\<close>

definition process_shared_bio ::
  "env \<Rightarrow> cell_key \<Rightarrow> cell_ptr \<Rightarrow> hook_ptr \<Rightarrow> thin_c \<Rightarrow> bio_ptr \<Rightarrow> 64 word
     \<Rightarrow> dm_thin_lookup_result \<Rightarrow> pool \<Rightarrow> (panic + pool) option" where
  "process_shared_bio env k new_cell new_hook tc' b blk lookup_result p =
     (case bio_detain new_cell (build_data_key tc' (lookup_block lookup_result) k) b (prison p) of
        Inl bug \<Rightarrow> Some (Inl bug)
      | Inr (r, c, prison1) \<Rightarrow>
          (let p1 = p\<lparr>prison := prison1\<rparr>
           in if r \<noteq> 0 then Some (Inr p1)
              else if bi_rw (bio_mem p1 b) AND REQ_WRITE env \<noteq> 0
              then break_sharing env tc' b blk (lookup_block lookup_result) c p1
              else
                (let p2 = hook_shared_read new_hook tc' b p1
                 in case cell_release_singleton c b (prison p2) of
                      Inl bug \<Rightarrow> Some (Inl bug)
                    | Inr prison2 \<Rightarrow>
                        remap_and_issue env tc' b (lookup_block lookup_result)
                          (p2\<lparr>prison := prison2\<rparr>))))"

text \<open>\<open>cell_defer\<close> and \<open>cell_defer_except\<close>.\<close>

definition cell_defer :: "thin_c \<Rightarrow> cell_ptr \<Rightarrow> 64 word \<Rightarrow> pool \<Rightarrow> pool" where
  "cell_defer tc' c data_blk p =
     (let (bs, prison1) = cell_release c (deferred_bios p) (prison p)
      in wake_worker (p\<lparr>deferred_bios := bs, prison := prison1\<rparr>))"

definition cell_defer_except :: "thin_c \<Rightarrow> cell_ptr \<Rightarrow> bio_ptr \<Rightarrow> pool \<Rightarrow> pool" where
  "cell_defer_except tc' c exception p =
     (let (bs, prison1) = cell_release c [] (prison p)
      in wake_worker
           (fold (\<lambda>b q. if b \<noteq> exception then q\<lparr>deferred_bios := deferred_bios q @ [b]\<rparr> else q)
                 bs (p\<lparr>prison := prison1\<rparr>)))"

text \<open>\<open>process_prepared_mapping\<close>; a mapping on the prepared list is allocated.\<close>

definition process_prepared_mapping :: "env \<Rightarrow> mapping_ptr \<Rightarrow> pool \<Rightarrow> (panic + pool) option" where
  "process_prepared_mapping env m p =
     (case mapping_pool p m of
        None \<Rightarrow> Some (Inl FAULT)
      | Some mp \<Rightarrow>
          (let p1 = (case bio mp of
                       Some b \<Rightarrow> upd_bio b (\<lambda>x. x\<lparr>bi_end_io := saved_bi_end_io mp\<rparr>) p
                     | None \<Rightarrow> p)
           in if err mp \<noteq> None then cell_error (cell mp) p1
              else
                (let p2 = emit (Dm_thin_insert_block (td (tc mp)) (virt_block mp) (data_block mp)) p1
                 in case dm_thin_insert_block env (td (tc mp)) (virt_block mp) (data_block mp) of
                      Some r \<Rightarrow> cell_error (cell mp) p2
                    | None \<Rightarrow>
                        and_then
                          (case bio mp of
                             Some b \<Rightarrow> bio_endio b None (cell_defer_except (tc mp) (cell mp) b p2)
                           | None \<Rightarrow> Some (Inr (cell_defer (tc mp) (cell mp) (data_block mp) p2)))
                          (\<lambda>q. Some (Inr (mempool_free_mapping m q))))))"

definition process_prepared_mappings :: "env \<Rightarrow> pool \<Rightarrow> (panic + pool) option" where
  "process_prepared_mappings env p =
     fold (\<lambda>m r. and_then r (process_prepared_mapping env m)) (prepared_mappings p)
       (Some (Inr (p\<lparr>prepared_mappings := []\<rparr>)))"

subsection \<open>Mapping functions\<close>

definition thin_defer_bio :: "thin_c \<Rightarrow> bio_ptr \<Rightarrow> pool \<Rightarrow> pool" where
  "thin_defer_bio tc' b p = wake_worker (p\<lparr>deferred_bios := deferred_bios p @ [b]\<rparr>)"

text \<open>What \<open>thin_bio_map\<close> returns: one of the two \<open>DM_MAPIO\<close> codes, or the error of
  the lookup when the \<open>switch\<close> has no case for it.\<close>

datatype map_result = DM_MAPIO_SUBMITTED | DM_MAPIO_REMAPPED | Map_error errno

definition thin_bio_map :: "env \<Rightarrow> thin_c \<Rightarrow> bio_ptr \<Rightarrow> pool \<Rightarrow> map_result \<times> pool" where
  "thin_bio_map env tc' b p =
     (let blk = get_bio_block p b;
          p1 = upd_bio b (\<lambda>x. x\<lparr>mapinfo_ptr := Thin_ptr tc'\<rparr>) p
      in if bi_rw (bio_mem p1 b) AND (REQ_FLUSH env OR REQ_FUA env) \<noteq> 0
         then (DM_MAPIO_SUBMITTED, thin_defer_bio tc' b p1)
         else case dm_thin_find_block env (td tc') blk False of
                Inr result \<Rightarrow>
                  if shared result then (DM_MAPIO_SUBMITTED, thin_defer_bio tc' b p1)
                  else (DM_MAPIO_REMAPPED, remap tc' b (lookup_block result) p1)
              | Inl ENODATA \<Rightarrow> (DM_MAPIO_SUBMITTED, thin_defer_bio tc' b p1)
              | Inl EWOULDBLOCK \<Rightarrow> (DM_MAPIO_SUBMITTED, thin_defer_bio tc' b p1)
              | Inl r \<Rightarrow> (Map_error r, p1))"

subsection \<open>Resuming the pool\<close>

text \<open>The fields of \<open>struct pool_c\<close> that \<open>bind_control_target\<close> reads.\<close>

record pool_c =
  pt_low_water_mark :: "64 word"
  pt_zero_new_blocks :: bool
  pt_metadata_dev :: nat

definition bind_control_target :: "env \<Rightarrow> pool_c \<Rightarrow> pool \<Rightarrow> pool" where
  "bind_control_target env pt p =
     emit (Dm_pool_rebind_metadata_device (pt_metadata_dev pt))
       (p\<lparr>low_water_mark := dm_sector_div_up env (pt_low_water_mark pt) (sectors_per_block p),
          zero_new_blocks := pt_zero_new_blocks pt\<rparr>)"

definition requeue_bios :: "pool \<Rightarrow> pool" where
  "requeue_bios p = p\<lparr>deferred_bios := deferred_bios p @ retry_list p, retry_list := []\<rparr>"

text \<open>\<open>pool_preresume\<close>; \<open>ti_len\<close> is \<open>ti->len\<close>. The result is \<open>r\<close> and the pool.\<close>

definition pool_preresume :: "env \<Rightarrow> pool_c \<Rightarrow> 64 word \<Rightarrow> pool \<Rightarrow> errno option \<times> pool" where
  "pool_preresume env pt ti_len p =
     (let p1 = bind_control_target env pt p;
          data_size = drop_bit (block_shift p1) ti_len
      in case dm_pool_get_data_dev_size env of
           Inl r \<Rightarrow> (Some r, p1)
         | Inr sb_data_size \<Rightarrow>
             if data_size < sb_data_size then (Some EINVAL, p1)
             else
               (let resized =
                      (if data_size > sb_data_size
                       then (let p2 = emit (Dm_pool_resize_data_dev data_size) p1
                             in case dm_pool_resize_data_dev env data_size of
                                  Some r \<Rightarrow> (Some r, p2)
                                | None \<Rightarrow>
                                    (dm_pool_commit_metadata env, emit Dm_pool_commit_metadata p2))
                       else (None, p1))
                in case resized of
                     (Some r, p3) \<Rightarrow> (Some r, p3)
                   | (None, p3) \<Rightarrow>
                       (None, emit Pool_table_insert
                                (wake_worker (requeue_bios (p3\<lparr>low_water_triggered := False\<rparr>))))))"


subsection \<open>Creating the pool\<close>

text \<open>
  \<open>pool_create\<close> when nothing fails: \<open>shift\<close> is \<open>ffs(block_size) - 1\<close>, \<open>n_buckets\<close>
  what \<open>calc_nr_buckets(PRISON_CELLS)\<close> gives, \<open>mem\<close> the memory holding the bios.
\<close>

definition pool_create :: "32 word \<Rightarrow> nat \<Rightarrow> 32 word \<Rightarrow> (bio_ptr \<Rightarrow> bio) \<Rightarrow> pool" where
  "pool_create block_size shift n_buckets mem =
     \<lparr>block_shift = shift, offset_mask = ucast (block_size - 1),
      sectors_per_block = block_size, low_water_mark = 0, zero_new_blocks = True,
      prison = prison_create n_buckets, deferred_bios = [], prepared_mappings = [],
      low_water_triggered = False, retry_list = [], ds = ds_init, next_mapping = None,
      bio_mem = mem, mapping_pool = Map.empty, endio_hook_pool = Map.empty, events = []\<rparr>"

text \<open>
  Values for the examples: an environment whose metadata store has the thin device
  empty and no free data block, on a data device of 8 blocks; a thin device; a pool of
  128-sector blocks whose bios are reads of sector 0 with no flag set, as \<open>thin_bio_map\<close>
  leaves the bios of the thin device.
\<close>

definition env_full :: env where
  "env_full =
     \<lparr>REQ_FLUSH = 0x800000, REQ_FUA = 0x1000000, REQ_WRITE = 1, SECTOR_SHIFT = 9,
      dm_sector_div_up = (\<lambda>n sz. (n + ucast sz - 1) div ucast sz),
      dm_thin_find_block = (\<lambda>d k can_block. Inl ENODATA),
      dm_thin_insert_block = (\<lambda>d k v. None),
      dm_pool_commit_metadata = None,
      dm_pool_get_free_block_count = Inr 0,
      dm_pool_alloc_data_block = Inl ENOSPC,
      dm_pool_get_data_dev_size = Inr 8,
      dm_pool_resize_data_dev = (\<lambda>n. None),
      dm_kcopyd_copy = None, dm_kcopyd_zero = None\<rparr>"

definition thin1 :: thin_c where
  "thin1 = \<lparr>pool_dev = 1, dev_id = 7, td = 7\<rparr>"

text \<open>Two keys for block 5 of one thin device, built in two stack frames that do not
  hold the same bytes.\<close>

definition stack_key1 :: cell_key where
  "stack_key1 = build_virtual_key thin1 5
     \<lparr>virtual = 0, pad = 0, dev = 0, block = 0\<rparr>"

definition stack_key2 :: cell_key where
  "stack_key2 = build_virtual_key thin1 5
     \<lparr>virtual = 0, pad = 0xdead, dev = 0, block = 0\<rparr>"

text \<open>The prison of one bucket after \<open>bio_detain\<close> of bio 10 under the first of these
  keys, with cell 3 from the mempool, and after \<open>bio_detain\<close> of bio 11 under the second,
  with cell 4.\<close>

definition frames_prison1 :: bio_prison where
  "frames_prison1 =
     snd (snd (detain_insert stack_key1 10 3 (mempool_alloc_cell 3 (prison_create 1))))"

definition frames_prison2 :: bio_prison where
  "frames_prison2 =
     snd (snd (detain_insert stack_key2 11 4 (mempool_alloc_cell 4 frames_prison1)))"

definition pool128 :: pool where
  "pool128 = pool_create 128 7 1
     (\<lambda>b. \<lparr>bi_sector = 0, bi_bdev = 0, bi_rw = 0, bi_size = 512,
            bi_end_io = Host_end_io 0, mapinfo_ptr = Thin_ptr thin1\<rparr>)"


text \<open>
  A pool with one prepared mapping (address 0) whose cell (address 3) holds the bios 10
  and 11; \<open>w\<close> is the mapping's \<open>bio\<close> and \<open>e\<close> its \<open>err\<close>.
\<close>

definition pool_with_mapping :: "bio_ptr option \<Rightarrow> errno option \<Rightarrow> pool" where
  "pool_with_mapping w e =
     pool128\<lparr>mapping_pool :=
               [0 \<mapsto> blank_mapping\<lparr>cell := 3, prepared := True, bio := w, err := e, tc := thin1\<rparr>],
             prison := (prison pool128)
               \<lparr>cells := [[3]],
                cell_pool := [3 \<mapsto> \<lparr>key = race_key, cell_count = 2,
                                    bios = [10, 11]\<rparr>]\<rparr>\<rparr>"



text \<open>
  Specification helpers for the ring of entries: \<open>ring_slots s n\<close> are the \<open>n\<close> slots
  from \<open>s\<close> on, in the order the sweeper visits them; \<open>ring_dist s c\<close> is the number
  of \<open>ds_next\<close> steps from \<open>s\<close> to \<open>c\<close>.
\<close>

definition ring_slots :: "nat \<Rightarrow> nat \<Rightarrow> nat list" where
  "ring_slots s n = map (\<lambda>j. (s + j) mod DEFERRED_SET_SIZE) [0..<n]"

definition ring_dist :: "nat \<Rightarrow> nat \<Rightarrow> nat" where
  "ring_dist s c = (c + DEFERRED_SET_SIZE - s) mod DEFERRED_SET_SIZE"

section \<open>Properties of the deferred set\<close>

lemma ds_wf_init: "ds_wf ds_init"
  by (simp add: ds_wf_def ds_init_def DEFERRED_SET_SIZE_def)

lemma ring_slots_0: "ring_slots s 0 = []"
  by (simp add: ring_slots_def)

lemma ring_slots_Suc: "ring_slots s (Suc n) = s mod DEFERRED_SET_SIZE # ring_slots (Suc s) n"
  by (simp add: ring_slots_def upt_rec[of 0] map_Suc_upt[symmetric] del: upt_Suc)

lemma ring_slots_mod: "ring_slots (s mod DEFERRED_SET_SIZE) n = ring_slots s n"
  by (simp add: ring_slots_def mod_add_left_eq)

lemma ring_slots_next: "ring_slots (ds_next s) n = ring_slots (Suc s) n"
  using ring_slots_mod[of "Suc s" n] by (simp add: ds_next_def)

lemma ring_dist_less: "s < c \<Longrightarrow> c < 64 \<Longrightarrow> ring_dist s c = c - s"
proof -
  assume a: "s < c" "c < 64"
  then have "c + 64 - s = (c - s) + 64" by arith
  then have "(c + 64 - s) mod 64 = (c - s) mod 64" by (simp only: mod_add_self2)
  also have "\<dots> = c - s" using a by (intro mod_less) arith
  finally show ?thesis by (simp only: ring_dist_def DEFERRED_SET_SIZE_def)
qed

lemma ring_dist_greater: "c < s \<Longrightarrow> s < 64 \<Longrightarrow> ring_dist s c = c + 64 - s"
proof -
  assume a: "c < s" "s < 64"
  then have "(c + 64 - s) mod 64 = c + 64 - s" by (intro mod_less) arith
  then show ?thesis by (simp only: ring_dist_def DEFERRED_SET_SIZE_def)
qed

lemma ring_dist_self: "ring_dist s s = 0"
  by (simp add: ring_dist_def)

lemma ring_dist_next:
  assumes "s < DEFERRED_SET_SIZE" "c < DEFERRED_SET_SIZE" "s \<noteq> c"
  shows "ring_dist s c = Suc (ring_dist (ds_next s) c)"
proof -
  have b: "s < 64" "c < 64" using assms by (simp_all add: DEFERRED_SET_SIZE_def)
  consider (lt) "s < c" "Suc s = c" | (lt2) "s < c" "Suc s < c"
    | (gt) "c < s" "s = 63" | (gt2) "c < s" "s < 63"
    using assms(3) b by arith
  then show ?thesis
  proof cases
    case lt
    have "ds_next s = c" using lt b by (simp add: ds_next_def DEFERRED_SET_SIZE_def)
    then show ?thesis using ring_dist_less[OF lt(1) b(2)] lt(2) by (simp add: ring_dist_self)
  next
    case lt2
    have n: "ds_next s = Suc s" using lt2 b by (simp add: ds_next_def DEFERRED_SET_SIZE_def)
    show ?thesis using ring_dist_less[OF lt2(1) b(2)] ring_dist_less[OF lt2(2) b(2)] lt2
      by (simp add: n)
  next
    case gt
    have n: "ds_next s = 0" using gt by (simp add: ds_next_def DEFERRED_SET_SIZE_def)
    have z: "ring_dist 0 c = c"
    proof (cases "c = 0")
      case True then show ?thesis by (simp add: ring_dist_self)
    next
      case False then show ?thesis using ring_dist_less[of 0 c] b by simp
    qed
    have "ring_dist s c = Suc c" using ring_dist_greater[OF gt(1) b(1)] gt by simp
    then show ?thesis by (simp only: n z)
  next
    case gt2
    have n: "ds_next s = Suc s" using gt2 by (simp add: ds_next_def DEFERRED_SET_SIZE_def)
    have "c < Suc s" "Suc s < 64" using gt2 by arith+
    then show ?thesis using ring_dist_greater[OF gt2(1) b(1)] ring_dist_greater[of c "Suc s"] gt2
      by (simp add: n)
  qed
qed

lemma ring_dist_0:
  assumes "s < DEFERRED_SET_SIZE" "c < DEFERRED_SET_SIZE"
  shows "ring_dist s c = 0 \<longleftrightarrow> s = c"
proof -
  have b: "s < 64" "c < 64" using assms by (simp_all add: DEFERRED_SET_SIZE_def)
  consider "s < c" | "s = c" | "c < s" by arith
  then show ?thesis
  proof cases
    case 1 then show ?thesis using ring_dist_less[OF 1 b(2)] by simp
  next
    case 2 then show ?thesis by (simp add: ring_dist_self)
  next
    case 3 then show ?thesis using ring_dist_greater[OF 3 b(1)] b by simp
  qed
qed

lemma ring_dist_lt: "ring_dist s c < DEFERRED_SET_SIZE"
  unfolding ring_dist_def DEFERRED_SET_SIZE_def by simp

lemma ring_no_wrap:
  assumes "s < 64" "j < 63"
  shows "(Suc s + j) mod 64 \<noteq> s"
proof (cases "Suc s + j < 64")
  case True
  then have "(Suc s + j) mod 64 = Suc s + j" by (rule mod_less)
  then show ?thesis by arith
next
  case False
  then have "(Suc s + j) mod 64 = (Suc s + j - 64) mod 64" by (intro le_mod_geq) arith
  also have "\<dots> = Suc s + j - 64" using assms by (intro mod_less) arith
  finally show ?thesis using assms False by arith
qed

text \<open>The loop of \<open>__sweep\<close> ends, and what it has done when it ends.\<close>

lemma sweep_loop_spec:
  assumes "ds_wf d"
  shows "\<exists>n d'. sweep_loop d head = Some (d', concat (rev (map (\<lambda>i. work_items (entries d ! i)) (ring_slots (sweeper d) n))) @ head) \<and>
     n \<le> ring_dist (sweeper d) (current_entry d) \<and>
     ds_wf d' \<and> current_entry d' = current_entry d \<and>
     sweeper d' = (sweeper d + n) mod DEFERRED_SET_SIZE \<and>
     (\<forall>i \<in> set (ring_slots (sweeper d) n). count (entries d ! i) = 0) \<and>
     (sweeper d' = current_entry d \<or> count (entries d ! sweeper d') \<noteq> 0) \<and>
     (\<forall>i < DEFERRED_SET_SIZE. count (entries d' ! i) = count (entries d ! i) \<and>
         work_items (entries d' ! i) = (if i \<in> set (ring_slots (sweeper d) n) then [] else work_items (entries d ! i)))"
  using assms
proof (induction k \<equiv> "ring_dist (sweeper d) (current_entry d)" arbitrary: d head)
  case 0
  then have eq: "sweeper d = current_entry d"
    using ring_dist_0[of "sweeper d" "current_entry d"] by (simp add: ds_wf_def)
  have "sweep_loop d head = Some (d, head)"
    by (subst sweep_loop.simps) (simp add: eq)
  then show ?case using 0 eq
    by (intro exI[of _ 0] exI[of _ d]) (simp add: ring_slots_0 ds_wf_def)
next
  case (Suc k)
  let ?s = "sweeper d" and ?c = "current_entry d"
  have wf: "?s < DEFERRED_SET_SIZE" "?c < DEFERRED_SET_SIZE" "length (entries d) = DEFERRED_SET_SIZE"
    using Suc.prems by (simp_all add: ds_wf_def)
  have ne: "?s \<noteq> ?c"
    using ring_dist_0[OF wf(1,2)] Suc.hyps(2) by auto
  show ?case
  proof (cases "count (entries d ! ?s) = 0")
    case False
    have "sweep_loop d head = Some (d, head)"
      by (subst sweep_loop.simps) (simp add: False)
    then show ?thesis using False Suc.prems
      by (intro exI[of _ 0] exI[of _ d]) (simp add: ring_slots_0 ds_wf_def)
  next
    case True
    define ds1 where "ds1 = d\<lparr>entries := (entries d)
                   [?s := (entries d ! ?s)\<lparr>work_items := []\<rparr>],
                 sweeper := ds_next ?s\<rparr>"
    define head1 where "head1 = work_items (entries d ! ?s) @ head"
    have step: "sweep_loop d head = sweep_loop ds1 head1"
      by (subst sweep_loop.simps) (simp add: True ne ds1_def head1_def)
    have wf1: "ds_wf ds1"
      using wf by (simp add: ds1_def ds_wf_def ds_next_def DEFERRED_SET_SIZE_def)
    have d1: "k = ring_dist (sweeper ds1) (current_entry ds1)"
      using ring_dist_next[OF wf(1,2) ne] Suc.hyps(2) by (simp add: ds1_def)
    have e1: "\<And>i. i < DEFERRED_SET_SIZE \<Longrightarrow> count (entries ds1 ! i) = count (entries d ! i)"
      using wf by (simp add: ds1_def nth_list_update)
    have w1: "\<And>i. i < DEFERRED_SET_SIZE \<Longrightarrow> work_items (entries ds1 ! i) = (if i = ?s then [] else work_items (entries d ! i))"
      using wf by (simp add: ds1_def nth_list_update)
    from Suc.hyps(1)[OF d1 wf1, of head1] obtain n d' where
      r: "sweep_loop ds1 head1 = Some (d', concat (rev (map (\<lambda>i. work_items (entries ds1 ! i)) (ring_slots (sweeper ds1) n))) @ head1)"
      and le: "n \<le> ring_dist (sweeper ds1) (current_entry ds1)"
      and wf': "ds_wf d'" and c': "current_entry d' = current_entry ds1"
      and s': "sweeper d' = (sweeper ds1 + n) mod DEFERRED_SET_SIZE"
      and z: "\<forall>i \<in> set (ring_slots (sweeper ds1) n). count (entries ds1 ! i) = 0"
      and stop: "sweeper d' = current_entry ds1 \<or> count (entries ds1 ! sweeper d') \<noteq> 0"
      and pt: "\<forall>i < DEFERRED_SET_SIZE. count (entries d' ! i) = count (entries ds1 ! i) \<and>
         work_items (entries d' ! i) = (if i \<in> set (ring_slots (sweeper ds1) n) then [] else work_items (entries ds1 ! i))"
      by blast
    have slots1: "ring_slots (sweeper ds1) n = ring_slots (Suc ?s) n"
      by (simp add: ds1_def ring_slots_next)
    have slots: "ring_slots ?s (Suc n) = ?s # ring_slots (Suc ?s) n"
      using wf by (simp add: ring_slots_Suc)
    have in_range: "\<And>i. i \<in> set (ring_slots (Suc ?s) n) \<Longrightarrow> i < DEFERRED_SET_SIZE"
      by (auto simp: ring_slots_def DEFERRED_SET_SIZE_def)
    have notin: "?s \<notin> set (ring_slots (Suc ?s) n)"
    proof
      assume "?s \<in> set (ring_slots (Suc ?s) n)"
      then obtain j where j: "j < n" "(Suc ?s + j) mod 64 = ?s"
        by (auto simp: ring_slots_def DEFERRED_SET_SIZE_def)
      have "n < 64" using le d1 Suc.hyps(2) ring_dist_lt[of ?s ?c] by (simp add: DEFERRED_SET_SIZE_def)
      then have "j < 63" using j(1) by arith
      moreover have "?s < 64" using wf(1) by (simp add: DEFERRED_SET_SIZE_def)
      ultimately show False using ring_no_wrap[of ?s j] j(2) by blast
    qed
    have maps: "map (\<lambda>i. work_items (entries ds1 ! i)) (ring_slots (Suc ?s) n) = map (\<lambda>i. work_items (entries d ! i)) (ring_slots (Suc ?s) n)"
      using notin in_range by (auto simp: w1)
    show ?thesis
    proof (intro exI[of _ "Suc n"] exI[of _ d'] conjI)
      show "sweep_loop d head = Some (d', concat (rev (map (\<lambda>i. work_items (entries d ! i)) (ring_slots ?s (Suc n)))) @ head)"
        using r by (simp add: step slots slots1 maps head1_def)
      show "Suc n \<le> ring_dist ?s ?c" using le d1 Suc.hyps(2) by simp
      show "ds_wf d'" by (rule wf')
      show "current_entry d' = ?c" using c' by (simp add: ds1_def)
      show "sweeper d' = (?s + Suc n) mod DEFERRED_SET_SIZE"
        using s' by (simp add: ds1_def ds_next_def mod_Suc_eq mod_add_left_eq)
      show "\<forall>i \<in> set (ring_slots ?s (Suc n)). count (entries d ! i) = 0"
        using z True in_range by (auto simp: slots slots1 e1)
      show "sweeper d' = ?c \<or> count (entries d ! sweeper d') \<noteq> 0"
        using stop wf' e1[of "sweeper d'"] by (auto simp: ds1_def ds_wf_def)
      show "\<forall>i < DEFERRED_SET_SIZE. count (entries d' ! i) = count (entries d ! i) \<and>
         work_items (entries d' ! i) = (if i \<in> set (ring_slots ?s (Suc n)) then [] else work_items (entries d ! i))"
        using pt by (auto simp: slots slots1 e1 w1)
    qed
  qed
qed


lemma ring_dist_of_slot:
  assumes "s < 64" "j < 64"
  shows "ring_dist s ((s + j) mod 64) = j"
proof (cases "s + j < 64")
  case True
  then have m: "(s + j) mod 64 = s + j" by (rule mod_less)
  show ?thesis
  proof (cases "j = 0")
    case True
    then show ?thesis using assms by (simp add: ring_dist_self)
  next
    case False
    then have "s < s + j" by arith
    from ring_dist_less[OF this True] show ?thesis by (simp only: m)
  qed
next
  case False
  then have "(s + j) mod 64 = (s + j - 64) mod 64" by (intro le_mod_geq) arith
  also have "\<dots> = s + j - 64" using assms by (intro mod_less) arith
  finally have m: "(s + j) mod 64 = s + j - 64" .
  have "s + j - 64 < s" using assms False by arith
  from ring_dist_greater[OF this assms(1)] show ?thesis using False by (simp only: m)
qed

lemma ring_slots_not_current:
  assumes "s < DEFERRED_SET_SIZE" "n \<le> ring_dist s c" "i \<in> set (ring_slots s n)"
  shows "i \<noteq> c"
proof
  assume "i = c"
  then obtain j where j: "j < n" "c = (s + j) mod 64"
    using assms(3) by (auto simp: ring_slots_def DEFERRED_SET_SIZE_def)
  have "n < 64" using assms(2) ring_dist_lt[of s c] by (simp add: DEFERRED_SET_SIZE_def)
  then have "j < 64" using j(1) by arith
  then have "ring_dist s c = j"
    using ring_dist_of_slot[of s j] assms(1) by (simp only: j(2) DEFERRED_SET_SIZE_def)
  then show False using j(1) assms(2) by arith
qed

lemma sweep_spec:
  assumes "ds_wf d"
  shows "\<exists>n d' swept. sweep d head =
       Some (d', concat (rev (map (\<lambda>i. work_items (entries d ! i)) swept)) @ head) \<and>
     swept = ring_slots (sweeper d) n @
       (if sweeper d' = current_entry d \<and> count (entries d ! current_entry d) = 0
        then [current_entry d] else []) \<and>
     n < DEFERRED_SET_SIZE \<and>
     ds_wf d' \<and> current_entry d' = current_entry d \<and>
     sweeper d' = (sweeper d + n) mod DEFERRED_SET_SIZE \<and>
     (\<forall>i \<in> set (ring_slots (sweeper d) n). i \<noteq> current_entry d \<and> count (entries d ! i) = 0) \<and>
     (sweeper d' = current_entry d \<or> count (entries d ! sweeper d') \<noteq> 0) \<and>
     (\<forall>i < DEFERRED_SET_SIZE. count (entries d' ! i) = count (entries d ! i) \<and>
         work_items (entries d' ! i) = (if i \<in> set swept then [] else work_items (entries d ! i)))"
proof -
  let ?c = "current_entry d"
  from sweep_loop_spec[OF assms, of head] obtain n ds1 where
    r: "sweep_loop d head = Some (ds1, concat (rev (map (\<lambda>i. work_items (entries d ! i)) (ring_slots (sweeper d) n))) @ head)"
    and le: "n \<le> ring_dist (sweeper d) ?c"
    and wf1: "ds_wf ds1" and c1: "current_entry ds1 = ?c"
    and s1: "sweeper ds1 = (sweeper d + n) mod DEFERRED_SET_SIZE"
    and z: "\<forall>i \<in> set (ring_slots (sweeper d) n). count (entries d ! i) = 0"
    and stop: "sweeper ds1 = ?c \<or> count (entries d ! sweeper ds1) \<noteq> 0"
    and pt: "\<forall>i < DEFERRED_SET_SIZE. count (entries ds1 ! i) = count (entries d ! i) \<and>
         work_items (entries ds1 ! i) = (if i \<in> set (ring_slots (sweeper d) n) then [] else work_items (entries d ! i))"
    by blast
  have wf: "sweeper d < DEFERRED_SET_SIZE" "?c < DEFERRED_SET_SIZE" "length (entries d) = DEFERRED_SET_SIZE"
    using assms by (simp_all add: ds_wf_def)
  have len1: "length (entries ds1) = DEFERRED_SET_SIZE" using wf1 by (simp add: ds_wf_def)
  have nlt: "n < DEFERRED_SET_SIZE" using le ring_dist_lt[of "sweeper d" ?c] by simp
  have nc: "\<And>i. i \<in> set (ring_slots (sweeper d) n) \<Longrightarrow> i \<noteq> ?c"
    using ring_slots_not_current[OF wf(1) le] by blast
  have cw: "work_items (entries ds1 ! ?c) = work_items (entries d ! ?c)"
    and cc: "count (entries ds1 ! ?c) = count (entries d ! ?c)"
    using pt wf(2) nc by auto
  show ?thesis
  proof (cases "sweeper ds1 = ?c \<and> count (entries d ! ?c) = 0")
    case True
    let ?d' = "ds1\<lparr>entries := (entries ds1)[?c := (entries ds1 ! ?c)\<lparr>work_items := []\<rparr>]\<rparr>"
    have res: "sweep d head = Some (?d', work_items (entries d ! ?c) @
        concat (rev (map (\<lambda>i. work_items (entries d ! i)) (ring_slots (sweeper d) n))) @ head)"
      using True by (simp add: sweep_def r c1 cc cw)
    show ?thesis
    proof (intro exI[of _ n] exI[of _ ?d'] exI[of _ "ring_slots (sweeper d) n @ [?c]"] conjI)
      show "sweep d head = Some (?d', concat (rev (map (\<lambda>i. work_items (entries d ! i))
          (ring_slots (sweeper d) n @ [?c]))) @ head)"
        by (simp add: res)
      show "ring_slots (sweeper d) n @ [?c] = ring_slots (sweeper d) n @
         (if sweeper ?d' = ?c \<and> count (entries d ! ?c) = 0 then [?c] else [])"
        using True by simp
      show "n < DEFERRED_SET_SIZE" by (rule nlt)
      show "ds_wf ?d'" using wf1 by (simp add: ds_wf_def)
      show "current_entry ?d' = ?c" by (simp add: c1)
      show "sweeper ?d' = (sweeper d + n) mod DEFERRED_SET_SIZE" by (simp add: s1)
      show "\<forall>i \<in> set (ring_slots (sweeper d) n). i \<noteq> ?c \<and> count (entries d ! i) = 0"
        using z nc by blast
      show "sweeper ?d' = ?c \<or> count (entries d ! sweeper ?d') \<noteq> 0"
        using True by simp
      show "\<forall>i < DEFERRED_SET_SIZE. count (entries ?d' ! i) = count (entries d ! i) \<and>
         work_items (entries ?d' ! i) =
           (if i \<in> set (ring_slots (sweeper d) n @ [?c]) then [] else work_items (entries d ! i))"
      proof (intro allI impI)
        fix i assume i: "i < DEFERRED_SET_SIZE"
        show "count (entries ?d' ! i) = count (entries d ! i) \<and>
           work_items (entries ?d' ! i) =
           (if i \<in> set (ring_slots (sweeper d) n @ [?c]) then [] else work_items (entries d ! i))"
        proof (cases "i = ?c")
          case True
          then show ?thesis using wf(2) len1 by (simp add: cc)
        next
          case False
          then show ?thesis using pt i by simp
        qed
      qed
    qed
  next
    case False
    have res: "sweep d head = Some (ds1,
        concat (rev (map (\<lambda>i. work_items (entries d ! i)) (ring_slots (sweeper d) n))) @ head)"
      using False by (auto simp: sweep_def r c1 cc)
    show ?thesis
    proof (intro exI[of _ n] exI[of _ ds1] exI[of _ "ring_slots (sweeper d) n"] conjI)
      show "sweep d head = Some (ds1, concat (rev (map (\<lambda>i. work_items (entries d ! i))
          (ring_slots (sweeper d) n))) @ head)"
        by (rule res)
      show "ring_slots (sweeper d) n = ring_slots (sweeper d) n @
         (if sweeper ds1 = ?c \<and> count (entries d ! ?c) = 0 then [?c] else [])"
        using False by simp
      show "n < DEFERRED_SET_SIZE" by (rule nlt)
      show "ds_wf ds1" by (rule wf1)
      show "current_entry ds1 = ?c" by (rule c1)
      show "sweeper ds1 = (sweeper d + n) mod DEFERRED_SET_SIZE" by (rule s1)
      show "\<forall>i \<in> set (ring_slots (sweeper d) n). i \<noteq> ?c \<and> count (entries d ! i) = 0"
        using z nc by blast
      show "sweeper ds1 = ?c \<or> count (entries d ! sweeper ds1) \<noteq> 0" by (rule stop)
      show "\<forall>i < DEFERRED_SET_SIZE. count (entries ds1 ! i) = count (entries d ! i) \<and>
         work_items (entries ds1 ! i) =
           (if i \<in> set (ring_slots (sweeper d) n) then [] else work_items (entries d ! i))"
        by (rule pt)
    qed
  qed
qed

text \<open>
  C5. \<open>ds_add_work\<close> returns 0, and leaves the set as it is, exactly when the sweeper is
  at the current e and the current e's count is zero. Otherwise it returns 1, the
  waiter is put on the current e's work list (\<open>list_add\<close>: next to the list head),
  nothing else changes in the entries, and the current e moves to the next slot
  exactly when that slot's count is zero.
\<close>

theorem ds_add_work_result:
  assumes "ds_wf d"
  shows "(fst (ds_add_work w d) = 0 \<longleftrightarrow>
            sweeper d = current_entry d \<and> count (entries d ! current_entry d) = 0) \<and>
         (fst (ds_add_work w d) = 0 \<longrightarrow> snd (ds_add_work w d) = d) \<and>
         (fst (ds_add_work w d) \<noteq> 0 \<longrightarrow>
            fst (ds_add_work w d) = 1 \<and>
            work_items (entries (snd (ds_add_work w d)) ! current_entry d) =
              w # work_items (entries d ! current_entry d) \<and>
            count (entries (snd (ds_add_work w d)) ! current_entry d) =
              count (entries d ! current_entry d) \<and>
            (\<forall>i < DEFERRED_SET_SIZE. i \<noteq> current_entry d \<longrightarrow>
               entries (snd (ds_add_work w d)) ! i = entries d ! i) \<and>
            sweeper (snd (ds_add_work w d)) = sweeper d \<and>
            current_entry (snd (ds_add_work w d)) =
              (if count (entries d ! ds_next (current_entry d)) = 0
               then ds_next (current_entry d) else current_entry d) \<and>
            ds_next (current_entry d) \<noteq> current_entry d)"
proof -
  have wf: "current_entry d < length (entries d)" "current_entry d < 64"
    using assms by (simp_all add: ds_wf_def DEFERRED_SET_SIZE_def)
  have nx: "ds_next (current_entry d) \<noteq> current_entry d"
    using wf(2) by (simp add: ds_next_def DEFERRED_SET_SIZE_def mod_Suc)
  have cnt: "count ((entries d)[current_entry d := (entries d ! current_entry d)
        \<lparr>work_items := w # work_items (entries d ! current_entry d)\<rparr>] ! ds_next (current_entry d)) =
      count (entries d ! ds_next (current_entry d))"
    using nx by (simp add: nth_list_update)
  show ?thesis
    using wf(1) nx by (simp add: ds_add_work_def Let_def cnt)
qed

theorem ds_add_work_result_witness:
  "ds_wf ds_init \<and> ds_add_work 7 ds_init = (0, ds_init) \<and>
   ds_wf (snd (ds_inc ds_init)) \<and> fst (ds_add_work 7 (snd (ds_inc ds_init))) = 1 \<and>
   current_entry (snd (ds_add_work 7 (snd (ds_inc ds_init)))) = 1 \<and>
   work_items (entries (snd (ds_add_work 7 (snd (ds_inc ds_init)))) ! 0) = [7]"
proof -
  have a: "ds_wf ds_init" by (simp add: ds_wf_def ds_init_def DEFERRED_SET_SIZE_def)
  have b: "ds_wf (snd (ds_inc ds_init))"
    by (simp add: ds_wf_def ds_init_def ds_inc_def DEFERRED_SET_SIZE_def)
  have c: "fst (ds_add_work 7 ds_init) = 0"
    using ds_add_work_result[OF a, of 7] by (simp add: ds_init_def DEFERRED_SET_SIZE_def)
  have d: "snd (ds_add_work 7 ds_init) = ds_init"
    using ds_add_work_result[OF a, of 7] c by simp
  have e: "fst (ds_add_work 7 (snd (ds_inc ds_init))) \<noteq> 0"
    using ds_add_work_result[OF b, of 7]
    by (simp add: ds_init_def ds_inc_def DEFERRED_SET_SIZE_def)
  have f: "current_entry (snd (ds_inc ds_init)) = 0" "ds_next 0 = 1"
    "count (entries (snd (ds_inc ds_init)) ! 1) = 0"
    "work_items (entries (snd (ds_inc ds_init)) ! 0) = []"
    by (simp_all add: ds_init_def ds_inc_def ds_next_def DEFERRED_SET_SIZE_def)
  show ?thesis
    using ds_add_work_result[OF b, of 7] a b c d e f by (simp add: prod_eq_iff)
qed

text \<open>
  C6. When the e's count is positive, \<open>ds_dec\<close> returns (it neither stops the kernel
  nor runs forever): the e's count is one less and no other count changes; the
  sweeper has moved over \<open>n\<close> slots, each with count zero and none of them the current
  e, and stands on the current e or on a slot whose count is not zero; the work
  items of the slots it moved over are in the returned list, the later slot's in front;
  and if it stands on the current e and that e's count is zero, that e's
  work items are drained too. The drained slots' lists are empty, the others are as
  they were.
\<close>

theorem ds_dec_sweeps:
  assumes "ds_wf d" and "e < DEFERRED_SET_SIZE" and "count (entries d ! e) \<noteq> 0"
  shows "\<exists>n d' swept. ds_dec e head d =
       Some (Inr (d', concat (rev (map (\<lambda>i. work_items (entries d ! i)) swept)) @ head)) \<and>
     swept = ring_slots (sweeper d) n @
       (if sweeper d' = current_entry d \<and> count (entries d' ! current_entry d) = 0
        then [current_entry d] else []) \<and>
     n < DEFERRED_SET_SIZE \<and>
     ds_wf d' \<and> current_entry d' = current_entry d \<and>
     sweeper d' = (sweeper d + n) mod DEFERRED_SET_SIZE \<and>
     (\<forall>i \<in> set (ring_slots (sweeper d) n). i \<noteq> current_entry d \<and> count (entries d' ! i) = 0) \<and>
     (sweeper d' = current_entry d \<or> count (entries d' ! sweeper d') \<noteq> 0) \<and>
     (\<forall>i < DEFERRED_SET_SIZE.
         count (entries d' ! i) =
           (if i = e then count (entries d ! e) - 1 else count (entries d ! i)) \<and>
         work_items (entries d' ! i) = (if i \<in> set swept then [] else work_items (entries d ! i)))"
proof -
  define dsd where "dsd = d\<lparr>entries := (entries d)
     [e := (entries d ! e)\<lparr>count := count (entries d ! e) - 1\<rparr>]\<rparr>"
  have len: "length (entries d) = DEFERRED_SET_SIZE" using assms(1) by (simp add: ds_wf_def)
  have wfd: "ds_wf dsd" using assms(1) by (simp add: dsd_def ds_wf_def)
  have f: "sweeper dsd = sweeper d" "current_entry dsd = current_entry d"
    by (simp_all add: dsd_def)
  have cd: "count (entries dsd ! i) =
      (if i = e then count (entries d ! e) - 1 else count (entries d ! i))"
    if "i < DEFERRED_SET_SIZE" for i
    using that len by (cases "i = e") (simp_all add: dsd_def)
  have wd: "work_items (entries dsd ! i) = work_items (entries d ! i)"
    if "i < DEFERRED_SET_SIZE" for i
    using that len by (cases "i = e") (simp_all add: dsd_def)
  have dec: "ds_dec e head d = map_option Inr (sweep dsd head)"
    using assms(3) by (simp add: ds_dec_def dsd_def)
  from sweep_spec[OF wfd, of head] obtain n d' swept where
    r: "sweep dsd head = Some (d', concat (rev (map (\<lambda>i. work_items (entries dsd ! i)) swept)) @ head)"
    and sw: "swept = ring_slots (sweeper dsd) n @
       (if sweeper d' = current_entry dsd \<and> count (entries dsd ! current_entry dsd) = 0
        then [current_entry dsd] else [])"
    and rest: "n < DEFERRED_SET_SIZE" "ds_wf d'" "current_entry d' = current_entry dsd"
      "sweeper d' = (sweeper dsd + n) mod DEFERRED_SET_SIZE"
      "\<forall>i \<in> set (ring_slots (sweeper dsd) n). i \<noteq> current_entry dsd \<and> count (entries dsd ! i) = 0"
      "sweeper d' = current_entry dsd \<or> count (entries dsd ! sweeper d') \<noteq> 0"
    and pt: "\<forall>i < DEFERRED_SET_SIZE. count (entries d' ! i) = count (entries dsd ! i) \<and>
         work_items (entries d' ! i) = (if i \<in> set swept then [] else work_items (entries dsd ! i))"
    by blast
  have cur: "current_entry d < DEFERRED_SET_SIZE" and sw': "sweeper d' < DEFERRED_SET_SIZE"
    using assms(1) rest(2) by (simp_all add: ds_wf_def)
  have in_range: "\<And>i. i \<in> set swept \<Longrightarrow> i < DEFERRED_SET_SIZE"
    using cur by (auto simp: sw f ring_slots_def DEFERRED_SET_SIZE_def split: if_splits)
  have m: "map (\<lambda>i. work_items (entries dsd ! i)) swept = map (\<lambda>i. work_items (entries d ! i)) swept"
    using in_range by (simp add: wd)
  have cnt': "\<And>i. i < DEFERRED_SET_SIZE \<Longrightarrow> count (entries d' ! i) = count (entries dsd ! i)"
    using pt by blast
  show ?thesis
  proof (intro exI[of _ n] exI[of _ d'] exI[of _ swept] conjI)
    show "ds_dec e head d =
       Some (Inr (d', concat (rev (map (\<lambda>i. work_items (entries d ! i)) swept)) @ head))"
      by (simp add: dec r m)
    show "swept = ring_slots (sweeper d) n @
       (if sweeper d' = current_entry d \<and> count (entries d' ! current_entry d) = 0
        then [current_entry d] else [])"
      using sw cur by (simp add: f cnt')
    show "n < DEFERRED_SET_SIZE" "ds_wf d'" by (rule rest)+
    show "current_entry d' = current_entry d" using rest(3) by (simp add: f)
    show "sweeper d' = (sweeper d + n) mod DEFERRED_SET_SIZE" using rest(4) by (simp add: f)
    show "\<forall>i \<in> set (ring_slots (sweeper d) n). i \<noteq> current_entry d \<and> count (entries d' ! i) = 0"
    proof
      fix i assume i: "i \<in> set (ring_slots (sweeper d) n)"
      then have "i < DEFERRED_SET_SIZE" by (auto simp: ring_slots_def DEFERRED_SET_SIZE_def)
      then show "i \<noteq> current_entry d \<and> count (entries d' ! i) = 0"
        using rest(5) i by (simp add: f cnt')
    qed
    show "sweeper d' = current_entry d \<or> count (entries d' ! sweeper d') \<noteq> 0"
      using rest(6) sw' by (simp add: f cnt')
    show "\<forall>i < DEFERRED_SET_SIZE.
         count (entries d' ! i) =
           (if i = e then count (entries d ! e) - 1 else count (entries d ! i)) \<and>
         work_items (entries d' ! i) = (if i \<in> set swept then [] else work_items (entries d ! i))"
      using pt by (simp add: cd wd)
  qed
qed

theorem ds_dec_sweeps_witness:
  "ds_wf (ds_init\<lparr>current_entry := 1,
       entries := (entries ds_init)[0 := \<lparr>count = 1, work_items = [7]\<rparr>]\<rparr>) \<and>
   (0::nat) < DEFERRED_SET_SIZE \<and>
   count (entries (ds_init\<lparr>current_entry := 1,
       entries := (entries ds_init)[0 := \<lparr>count = 1, work_items = [7]\<rparr>]\<rparr>) ! 0) \<noteq> 0 \<and>
   (\<exists>d' out. ds_dec 0 [] (ds_init\<lparr>current_entry := 1,
       entries := (entries ds_init)[0 := \<lparr>count = 1, work_items = [7]\<rparr>]\<rparr>) =
         Some (Inr (d', out)) \<and> ds_wf d' \<and> current_entry d' = 1)"
proof -
  let ?X = "ds_init\<lparr>current_entry := 1,
       entries := (entries ds_init)[0 := \<lparr>count = 1, work_items = [7]\<rparr>]\<rparr>"
  have a: "ds_wf ?X" by (simp add: ds_wf_def ds_init_def DEFERRED_SET_SIZE_def)
  have b: "(0::nat) < DEFERRED_SET_SIZE" by (simp add: DEFERRED_SET_SIZE_def)
  have c: "count (entries ?X ! 0) \<noteq> 0" by (simp add: ds_init_def DEFERRED_SET_SIZE_def)
  have d: "current_entry ?X = 1" by simp
  from ds_dec_sweeps[OF a b c, of "[]"] d a b c show ?thesis by (simp only:) blast
qed


section \<open>Properties of the mapping functions and the worker\<close>

lemma and_then_simps:
  "and_then None f = None" "and_then (Some (Inl x)) f = Some (Inl x)"
  "and_then (Some (Inr p)) f = f p"
  by (simp_all add: and_then_def)

lemma bio_endio_host:
  "bi_end_io (bio_mem p b) = Host_end_io f \<Longrightarrow>
   bio_endio b e p = Some (Inr (emit (Bio_endio b e) p))"
  by (subst bio_endio.simps) simp



lemma fold_bio_io_error_host:
  assumes "\<forall>x \<in> set bs. \<exists>f. bi_end_io (bio_mem p x) = Host_end_io f"
  shows "fold (\<lambda>b r. and_then r (bio_io_error b)) bs (Some (Inr p)) =
         Some (Inr (p\<lparr>events := events p @ map (\<lambda>b. Bio_endio b (Some EIO)) bs\<rparr>))"
  using assms
proof (induction bs arbitrary: p)
  case Nil
  show ?case by simp
next
  case (Cons b bs)
  from Cons.prems obtain f where f: "bi_end_io (bio_mem p b) = Host_end_io f" by auto
  have h: "\<forall>x \<in> set bs. \<exists>f. bi_end_io (bio_mem (emit (Bio_endio b (Some EIO)) p) x) = Host_end_io f"
    using Cons.prems by (simp add: emit_def)
  show ?case
    using Cons.IH[OF h]
    by (simp add: and_then_simps bio_io_error_def bio_endio_host[OF f] emit_def)
qed

lemma cell_error_result:
  assumes "cell_pool (prison p) c = Some cl"
    and "\<forall>x \<in> set (bios cl). \<exists>f. bi_end_io (bio_mem p x) = Host_end_io f"
  shows "cell_error c p =
      Some (Inr (p\<lparr>prison := mempool_free_cell c ((prison p)\<lparr>cells := map (remove1 c) (cells (prison p))\<rparr>),
                   events := events p @ map (\<lambda>b. Bio_endio b (Some EIO)) (bios cl)\<rparr>))"
proof -
  let ?p1 = "p\<lparr>prison := mempool_free_cell c ((prison p)\<lparr>cells := map (remove1 c) (cells (prison p))\<rparr>)\<rparr>"
  have "\<forall>x \<in> set (bios cl). \<exists>f. bi_end_io (bio_mem ?p1 x) = Host_end_io f" using assms(2) by simp
  from fold_bio_io_error_host[OF this] show ?thesis
    using assms(1) by (simp add: cell_error_def cell_release_def)
qed

lemma fold_defer_except:
  "fold (\<lambda>b q. if b \<noteq> x then q\<lparr>deferred_bios := deferred_bios q @ [b]\<rparr> else q) bs p =
   p\<lparr>deferred_bios := deferred_bios p @ filter (\<lambda>b. b \<noteq> x) bs\<rparr>"
  by (induction bs arbitrary: p) simp_all

lemma cell_defer_except_bio_mem: "bio_mem (cell_defer_except tc' c w p) = bio_mem p"
  by (simp add: cell_defer_except_def fold_defer_except wake_worker_def emit_def split: prod.splits)

text \<open>
  C4. \<open>process_prepared_mapping\<close> on a mapping whose cell holds the bios \<open>bios cl\<close>,
  bios that \<open>bio_endio\<close> hands to their owners: those waiting in a cell are not hooked,
  and the mapping's own bio gets the saved function back before anything is ended.
  With an error in the mapping every bio of the cell is ended with \<open>-EIO\<close> and the
  metadata is not called. With no error the block is inserted; if the insertion fails,
  every bio of the cell is ended with \<open>-EIO\<close>. If it succeeds and the mapping has a bio
  of its own, the other bios of the cell go to the end of the deferred list, the worker
  is woken and that bio is ended with 0; if the mapping has no bio, all bios of the cell
  go to the end of the deferred list and the worker is woken. In every case the call
  returns and the cell is released.
\<close>

theorem process_prepared_mapping_cases:
  assumes "mapping_pool p m = Some mp" and "cell_pool (prison p) (cell mp) = Some cl"
    and "\<forall>x \<in> set (bios cl). bio mp \<noteq> Some x \<longrightarrow> (\<exists>f. bi_end_io (bio_mem p x) = Host_end_io f)"
    and "bio mp \<noteq> None \<longrightarrow> (\<exists>f. saved_bi_end_io mp = Host_end_io f)"
  shows "\<exists>q. process_prepared_mapping env m p = Some (Inr q) \<and>
         (err mp \<noteq> None \<longrightarrow>
            events q = events p @ map (\<lambda>b. Bio_endio b (Some EIO)) (bios cl) \<and>
            deferred_bios q = deferred_bios p) \<and>
         (err mp = None \<and>
          dm_thin_insert_block env (td (tc mp)) (virt_block mp) (data_block mp) \<noteq> None \<longrightarrow>
            events q =
              events p @ [Dm_thin_insert_block (td (tc mp)) (virt_block mp) (data_block mp)] @
                map (\<lambda>b. Bio_endio b (Some EIO)) (bios cl) \<and>
            deferred_bios q = deferred_bios p) \<and>
         (err mp = None \<and>
          dm_thin_insert_block env (td (tc mp)) (virt_block mp) (data_block mp) = None \<longrightarrow>
            (\<forall>w. bio mp = Some w \<longrightarrow>
               deferred_bios q = deferred_bios p @ filter (\<lambda>x. x \<noteq> w) (bios cl) \<and>
               events q =
                 events p @ [Dm_thin_insert_block (td (tc mp)) (virt_block mp) (data_block mp),
                             Queue_work, Bio_endio w None]) \<and>
            (bio mp = None \<longrightarrow>
               deferred_bios q = deferred_bios p @ bios cl \<and>
               events q =
                 events p @ [Dm_thin_insert_block (td (tc mp)) (virt_block mp) (data_block mp),
                             Queue_work])) \<and>
         cell_pool (prison q) (cell mp) = None"
proof -
  define p1 where "p1 = (case bio mp of
      Some b \<Rightarrow> upd_bio b (\<lambda>x. x\<lparr>bi_end_io := saved_bi_end_io mp\<rparr>) p | None \<Rightarrow> p)"
  define p2 where "p2 = emit (Dm_thin_insert_block (td (tc mp)) (virt_block mp) (data_block mp)) p1"
  have f1: "events p1 = events p" "deferred_bios p1 = deferred_bios p" "prison p1 = prison p"
    by (simp_all add: p1_def upd_bio_def split: option.splits)
  have f2: "events p2 = events p @ [Dm_thin_insert_block (td (tc mp)) (virt_block mp) (data_block mp)]"
    "deferred_bios p2 = deferred_bios p" "prison p2 = prison p" "bio_mem p2 = bio_mem p1"
    by (simp_all add: p2_def emit_def f1)
  have c1: "cell_pool (prison p1) (cell mp) = Some cl" and c2: "cell_pool (prison p2) (cell mp) = Some cl"
    using assms(2) by (simp_all add: f1 f2)
  have h1: "\<forall>x \<in> set (bios cl). \<exists>f. bi_end_io (bio_mem p1 x) = Host_end_io f"
    using assms(3,4) by (auto simp: p1_def upd_bio_def split: option.splits)
  have h2: "\<forall>x \<in> set (bios cl). \<exists>f. bi_end_io (bio_mem p2 x) = Host_end_io f"
    using h1 by (simp add: f2)
  show ?thesis
  proof (cases "err mp")
    case (Some e)
    then have "process_prepared_mapping env m p = cell_error (cell mp) p1"
      using assms(1) by (simp add: process_prepared_mapping_def p1_def)
    then show ?thesis using Some
      by (simp add: cell_error_result[OF c1 h1] f1 mempool_free_cell_def)
  next
    case None
    note noerr = None
    show ?thesis
    proof (cases "dm_thin_insert_block env (td (tc mp)) (virt_block mp) (data_block mp)")
      case (Some r)
      then have "process_prepared_mapping env m p = cell_error (cell mp) p2"
        using assms(1) noerr by (simp add: process_prepared_mapping_def p1_def p2_def Let_def)
      then show ?thesis using Some noerr
        by (simp add: cell_error_result[OF c2 h2] f2 mempool_free_cell_def)
    next
      case None
      show ?thesis
      proof (cases "bio mp")
        case (Some w)
        from assms(4) Some obtain f where f: "saved_bi_end_io mp = Host_end_io f" by auto
        have "bi_end_io (bio_mem (cell_defer_except (tc mp) (cell mp) w p2) w) = Host_end_io f"
          by (simp add: cell_defer_except_bio_mem f2 p1_def Some upd_bio_def f)
        from bio_endio_host[OF this]
        have "process_prepared_mapping env m p =
            Some (Inr (mempool_free_mapping m
               (emit (Bio_endio w None) (cell_defer_except (tc mp) (cell mp) w p2))))"
          using assms(1) noerr None Some
          by (simp add: process_prepared_mapping_def p1_def p2_def Let_def and_then_simps)
        then show ?thesis using Some noerr None c2
          by (simp add: mempool_free_mapping_def emit_def cell_defer_except_def cell_release_def
              mempool_free_cell_def wake_worker_def fold_defer_except f2)
      next
        case bnone: None
        have "process_prepared_mapping env m p =
            Some (Inr (mempool_free_mapping m (cell_defer (tc mp) (cell mp) (data_block mp) p2)))"
          using assms(1) noerr None bnone
          by (simp add: process_prepared_mapping_def p1_def p2_def Let_def and_then_simps)
        then show ?thesis using bnone noerr None c2
          by (simp add: mempool_free_mapping_def emit_def cell_defer_def cell_release_def
              mempool_free_cell_def wake_worker_def f2)
      qed
    qed
  qed
qed








text \<open>
  C7. A request with neither \<open>REQ_FLUSH\<close> nor \<open>REQ_FUA\<close> set: \<open>thin_bio_map\<close> looks its
  block up with \<open>can_block = 0\<close>. If the lookup finds a mapping that is not shared, the
  bio is remapped in place (device and sector), nothing is queued, the worker is not
  woken and the result is \<open>DM_MAPIO_REMAPPED\<close>. If it finds a shared mapping, or answers
  \<open>-ENODATA\<close> or \<open>-EWOULDBLOCK\<close>, the bio is put at the end of the pool's deferred list
  unchanged, the worker is woken and the result is \<open>DM_MAPIO_SUBMITTED\<close>.
\<close>

theorem thin_bio_map_fast_path:
  assumes "bi_rw (bio_mem p b) AND (REQ_FLUSH env OR REQ_FUA env) = 0"
  shows "(\<forall>result. dm_thin_find_block env (td tc') (get_bio_block p b) False = Inr result \<and>
              \<not> shared result \<longrightarrow>
            fst (thin_bio_map env tc' b p) = DM_MAPIO_REMAPPED \<and>
            bi_sector (bio_mem (snd (thin_bio_map env tc' b p)) b) =
              push_bit (block_shift p) (lookup_block result) + (bi_sector (bio_mem p b) AND offset_mask p) \<and>
            bi_bdev (bio_mem (snd (thin_bio_map env tc' b p)) b) = pool_dev tc' \<and>
            deferred_bios (snd (thin_bio_map env tc' b p)) = deferred_bios p \<and>
            events (snd (thin_bio_map env tc' b p)) = events p) \<and>
         ((\<exists>result. dm_thin_find_block env (td tc') (get_bio_block p b) False = Inr result \<and>
              shared result) \<or>
          dm_thin_find_block env (td tc') (get_bio_block p b) False = Inl ENODATA \<or>
          dm_thin_find_block env (td tc') (get_bio_block p b) False = Inl EWOULDBLOCK \<longrightarrow>
            fst (thin_bio_map env tc' b p) = DM_MAPIO_SUBMITTED \<and>
            deferred_bios (snd (thin_bio_map env tc' b p)) = deferred_bios p @ [b] \<and>
            events (snd (thin_bio_map env tc' b p)) = events p @ [Queue_work] \<and>
            bi_sector (bio_mem (snd (thin_bio_map env tc' b p)) b) = bi_sector (bio_mem p b) \<and>
            bi_bdev (bio_mem (snd (thin_bio_map env tc' b p)) b) = bi_bdev (bio_mem p b))"
  using assms
  by (auto simp: thin_bio_map_def thin_defer_bio_def wake_worker_def emit_def upd_bio_def
      remap_def Let_def)


lemma fold_retry_later:
  assumes "\<forall>x \<in> set bs. \<exists>t. mapinfo_ptr (bio_mem p x) = Thin_ptr t"
  shows "fold (\<lambda>b r. case r of Inl bug \<Rightarrow> Inl bug | Inr q \<Rightarrow> retry_later b q) bs (Inr p) =
         Inr (p\<lparr>retry_list := retry_list p @ bs\<rparr>)"
  using assms
proof (induction bs arbitrary: p)
  case Nil
  show ?case by simp
next
  case (Cons b bs)
  from Cons.prems obtain t where t: "mapinfo_ptr (bio_mem p b) = Thin_ptr t" by auto
  have h: "\<forall>x \<in> set bs. \<exists>t. mapinfo_ptr (bio_mem (p\<lparr>retry_list := retry_list p @ [b]\<rparr>) x) = Thin_ptr t"
    using Cons.prems by simp
  show ?case using Cons.IH[OF h] by (simp add: retry_later_def t)
qed

lemma no_space_result:
  assumes "cell_pool (prison p) c = Some cl"
    and "\<forall>x \<in> set (bios cl). \<exists>t. mapinfo_ptr (bio_mem p x) = Thin_ptr t"
  shows "no_space c p =
     Inr (p\<lparr>prison := mempool_free_cell c ((prison p)\<lparr>cells := map (remove1 c) (cells (prison p))\<rparr>),
            retry_list := retry_list p @ bios cl\<rparr>)"
proof -
  let ?p1 = "p\<lparr>prison := mempool_free_cell c ((prison p)\<lparr>cells := map (remove1 c) (cells (prison p))\<rparr>)\<rparr>"
  have "\<forall>x \<in> set (bios cl). \<exists>t. mapinfo_ptr (bio_mem ?p1 x) = Thin_ptr t" using assms(2) by simp
  from fold_retry_later[OF this] show ?thesis
    using assms(1) by (simp add: no_space_def cell_release_def)
qed

lemma alloc_data_block_frame:
  "prison (snd (alloc_data_block env tc' p)) = prison p"
  "retry_list (snd (alloc_data_block env tc' p)) = retry_list p"
  "deferred_bios (snd (alloc_data_block env tc' p)) = deferred_bios p"
  "bio_mem (snd (alloc_data_block env tc' p)) = bio_mem p"
  "Bio_endio x e \<in> set (events (snd (alloc_data_block env tc' p))) \<longleftrightarrow> Bio_endio x e \<in> set (events p)"
  by (auto simp: alloc_data_block_def emit_def Let_def split: sum.splits)

lemma pool_preresume_cases:
  fixes env pt ti_len q
  defines "p1 \<equiv> bind_control_target env pt q"
    and "sz \<equiv> drop_bit (block_shift q) ti_len"
  shows "dm_pool_get_data_dev_size env = Inl r \<Longrightarrow> pool_preresume env pt ti_len q = (Some r, p1)"
    and "dm_pool_get_data_dev_size env = Inr sb \<Longrightarrow> sz < sb \<Longrightarrow>
         pool_preresume env pt ti_len q = (Some EINVAL, p1)"
    and "dm_pool_get_data_dev_size env = Inr sb \<Longrightarrow> sb < sz \<Longrightarrow>
         dm_pool_resize_data_dev env sz = Some r \<Longrightarrow>
         pool_preresume env pt ti_len q = (Some r, emit (Dm_pool_resize_data_dev sz) p1)"
    and "dm_pool_get_data_dev_size env = Inr sb \<Longrightarrow> sb < sz \<Longrightarrow>
         dm_pool_resize_data_dev env sz = None \<Longrightarrow> dm_pool_commit_metadata env = Some r \<Longrightarrow>
         pool_preresume env pt ti_len q =
           (Some r, emit Dm_pool_commit_metadata (emit (Dm_pool_resize_data_dev sz) p1))"
    and "dm_pool_get_data_dev_size env = Inr sb \<Longrightarrow> sb < sz \<Longrightarrow>
         dm_pool_resize_data_dev env sz = None \<Longrightarrow> dm_pool_commit_metadata env = None \<Longrightarrow>
         pool_preresume env pt ti_len q =
           (None, emit Pool_table_insert (wake_worker (requeue_bios
              ((emit Dm_pool_commit_metadata (emit (Dm_pool_resize_data_dev sz) p1))
                 \<lparr>low_water_triggered := False\<rparr>))))"
    and "dm_pool_get_data_dev_size env = Inr sb \<Longrightarrow> sz = sb \<Longrightarrow>
         pool_preresume env pt ti_len q =
           (None, emit Pool_table_insert (wake_worker (requeue_bios
              (p1\<lparr>low_water_triggered := False\<rparr>))))"
proof -
  have bs: "block_shift (bind_control_target env pt q) = block_shift q"
    by (simp add: bind_control_target_def emit_def)
  show "dm_pool_get_data_dev_size env = Inl r \<Longrightarrow> pool_preresume env pt ti_len q = (Some r, p1)"
    by (simp add: pool_preresume_def Let_def p1_def)
  show "dm_pool_get_data_dev_size env = Inr sb \<Longrightarrow> sz < sb \<Longrightarrow>
         pool_preresume env pt ti_len q = (Some EINVAL, p1)"
    by (simp add: pool_preresume_def Let_def p1_def sz_def bs)
  show "dm_pool_get_data_dev_size env = Inr sb \<Longrightarrow> sb < sz \<Longrightarrow>
         dm_pool_resize_data_dev env sz = Some r \<Longrightarrow>
         pool_preresume env pt ti_len q = (Some r, emit (Dm_pool_resize_data_dev sz) p1)"
  proof -
    assume a: "dm_pool_get_data_dev_size env = Inr sb" "sb < sz"
    then have n: "\<not> drop_bit (block_shift q) ti_len < sb" "sb < drop_bit (block_shift q) ti_len"
      by (simp_all add: sz_def not_less less_imp_le)
    assume "dm_pool_resize_data_dev env sz = Some r"
    then show ?thesis
      using a n by (simp add: pool_preresume_def Let_def p1_def sz_def bs)
  qed
  show "dm_pool_get_data_dev_size env = Inr sb \<Longrightarrow> sb < sz \<Longrightarrow>
         dm_pool_resize_data_dev env sz = None \<Longrightarrow> dm_pool_commit_metadata env = Some r \<Longrightarrow>
         pool_preresume env pt ti_len q =
           (Some r, emit Dm_pool_commit_metadata (emit (Dm_pool_resize_data_dev sz) p1))"
  proof -
    assume a: "dm_pool_get_data_dev_size env = Inr sb" "sb < sz"
    then have n: "\<not> drop_bit (block_shift q) ti_len < sb" "sb < drop_bit (block_shift q) ti_len"
      by (simp_all add: sz_def not_less less_imp_le)
    assume "dm_pool_resize_data_dev env sz = None" "dm_pool_commit_metadata env = Some r"
    then show ?thesis
      using a n by (simp add: pool_preresume_def Let_def p1_def sz_def bs)
  qed
  show "dm_pool_get_data_dev_size env = Inr sb \<Longrightarrow> sb < sz \<Longrightarrow>
         dm_pool_resize_data_dev env sz = None \<Longrightarrow> dm_pool_commit_metadata env = None \<Longrightarrow>
         pool_preresume env pt ti_len q =
           (None, emit Pool_table_insert (wake_worker (requeue_bios
              ((emit Dm_pool_commit_metadata (emit (Dm_pool_resize_data_dev sz) p1))
                 \<lparr>low_water_triggered := False\<rparr>))))"
  proof -
    assume a: "dm_pool_get_data_dev_size env = Inr sb" "sb < sz"
    then have n: "\<not> drop_bit (block_shift q) ti_len < sb" "sb < drop_bit (block_shift q) ti_len"
      by (simp_all add: sz_def not_less less_imp_le)
    assume "dm_pool_resize_data_dev env sz = None" "dm_pool_commit_metadata env = None"
    then show ?thesis
      using a n by (simp add: pool_preresume_def Let_def p1_def sz_def bs)
  qed
  show "dm_pool_get_data_dev_size env = Inr sb \<Longrightarrow> sz = sb \<Longrightarrow>
         pool_preresume env pt ti_len q =
           (None, emit Pool_table_insert (wake_worker (requeue_bios
              (p1\<lparr>low_water_triggered := False\<rparr>))))"
    by (simp add: pool_preresume_def Let_def p1_def sz_def bs)
qed

lemma pool_preresume_all:
  "fst (pool_preresume env pt ti_len q) =
     (case dm_pool_get_data_dev_size env of
        Inl r \<Rightarrow> Some r
      | Inr sb \<Rightarrow>
          if drop_bit (block_shift q) ti_len < sb then Some EINVAL
          else if sb < drop_bit (block_shift q) ti_len
          then (case dm_pool_resize_data_dev env (drop_bit (block_shift q) ti_len) of
                  Some r \<Rightarrow> Some r
                | None \<Rightarrow> dm_pool_commit_metadata env)
          else None) \<and>
   (fst (pool_preresume env pt ti_len q) = None \<longrightarrow>
     deferred_bios (snd (pool_preresume env pt ti_len q)) = deferred_bios q @ retry_list q \<and>
     retry_list (snd (pool_preresume env pt ti_len q)) = [] \<and>
     \<not> low_water_triggered (snd (pool_preresume env pt ti_len q)) \<and>
     (\<exists>evs. events (snd (pool_preresume env pt ti_len q)) =
              events q @ evs @ [Queue_work, Pool_table_insert])) \<and>
   (fst (pool_preresume env pt ti_len q) \<noteq> None \<longrightarrow>
     deferred_bios (snd (pool_preresume env pt ti_len q)) = deferred_bios q \<and>
     retry_list (snd (pool_preresume env pt ti_len q)) = retry_list q \<and>
     low_water_triggered (snd (pool_preresume env pt ti_len q)) = low_water_triggered q \<and>
     (\<exists>evs. events (snd (pool_preresume env pt ti_len q)) = events q @ evs \<and>
            Queue_work \<notin> set evs \<and> Pool_table_insert \<notin> set evs))"
proof -
  note c = pool_preresume_cases[where env = env and pt = pt and ti_len = ti_len and q = q]
  let ?sz = "drop_bit (block_shift q) ti_len"
  show ?thesis
  proof (cases "dm_pool_get_data_dev_size env")
    case (Inl r)
    show ?thesis
      by (simp add: c(1)[OF Inl] Inl bind_control_target_def emit_def)
  next
    case (Inr sb)
    consider "?sz < sb" | "?sz = sb" | "sb < ?sz" by (rule linorder_cases)
    then show ?thesis
    proof cases
      case 1
      show ?thesis
        by (simp add: c(2)[OF Inr 1] Inr 1 bind_control_target_def emit_def)
    next
      case 2
      show ?thesis
        by (simp add: c(6)[OF Inr 2] Inr 2 bind_control_target_def emit_def wake_worker_def
            requeue_bios_def)
    next
      case 3
      then have n: "\<not> ?sz < sb" by simp
      show ?thesis
      proof (cases "dm_pool_resize_data_dev env ?sz")
        case (Some r)
        show ?thesis
          by (simp add: c(3)[OF Inr 3 Some] Inr 3 n Some bind_control_target_def emit_def)
      next
        case None
        show ?thesis
        proof (cases "dm_pool_commit_metadata env")
          case (Some r)
          show ?thesis
            by (simp add: c(4)[OF Inr 3 None Some] Inr 3 n None Some bind_control_target_def
                emit_def)
        next
          case cn: None
          show ?thesis
            by (simp add: c(5)[OF Inr 3 None cn] Inr 3 n None cn bind_control_target_def emit_def
                wake_worker_def requeue_bios_def)
        qed
      qed
    qed
  qed
qed

lemma pool_preresume_returns:
  "fst (pool_preresume env pt ti_len q) =
     (case dm_pool_get_data_dev_size env of
        Inl r \<Rightarrow> Some r
      | Inr sb \<Rightarrow>
          if drop_bit (block_shift q) ti_len < sb then Some EINVAL
          else if sb < drop_bit (block_shift q) ti_len
          then (case dm_pool_resize_data_dev env (drop_bit (block_shift q) ti_len) of
                  Some r \<Rightarrow> Some r
                | None \<Rightarrow> dm_pool_commit_metadata env)
          else None)"
  using pool_preresume_all[of env pt ti_len q] by (rule conjunct1)

lemma pool_preresume_done:
  "fst (pool_preresume env pt ti_len q) = None \<Longrightarrow>
     deferred_bios (snd (pool_preresume env pt ti_len q)) = deferred_bios q @ retry_list q \<and>
     retry_list (snd (pool_preresume env pt ti_len q)) = [] \<and>
     \<not> low_water_triggered (snd (pool_preresume env pt ti_len q)) \<and>
     (\<exists>evs. events (snd (pool_preresume env pt ti_len q)) =
              events q @ evs @ [Queue_work, Pool_table_insert])"
  by (rule mp[OF conjunct1[OF conjunct2[OF pool_preresume_all[of env pt ti_len q]]]])

lemma pool_preresume_failed:
  "fst (pool_preresume env pt ti_len q) \<noteq> None \<Longrightarrow>
     deferred_bios (snd (pool_preresume env pt ti_len q)) = deferred_bios q \<and>
     retry_list (snd (pool_preresume env pt ti_len q)) = retry_list q \<and>
     low_water_triggered (snd (pool_preresume env pt ti_len q)) = low_water_triggered q \<and>
     (\<exists>evs. events (snd (pool_preresume env pt ti_len q)) = events q @ evs \<and>
            Queue_work \<notin> set evs \<and> Pool_table_insert \<notin> set evs)"
  by (rule mp[OF conjunct2[OF conjunct2[OF pool_preresume_all[of env pt ti_len q]]]])

text \<open>
  C9, as amended. An allocation that succeeds, where \<open>free_blocks\<close> is the free-block
  count the metadata reports to \<open>alloc_data_block\<close>, before the block is taken: if it
  is at most the low-water mark and \<open>low_water_triggered\<close> is not set, one table event
  is raised and \<open>low_water_triggered\<close> is set; otherwise no event is raised and the flag
  is as before, so a set flag keeps further events away. \<open>pool_preresume\<close> returns 0
  when the data device's size can be read and is not above the target's, and the resize
  and the commit, if the device has grown, succeed; then it clears the flag. When it
  returns an error the flag is as it was.
\<close>

theorem alloc_data_block_low_water:
  assumes "dm_pool_get_free_block_count env = Inr free_blocks"
    and "dm_pool_alloc_data_block env = Inr result"
  shows "fst (alloc_data_block env tc' p) = Inr result \<and>
         (free_blocks \<le> low_water_mark p \<and> \<not> low_water_triggered p \<longrightarrow>
            events (snd (alloc_data_block env tc' p)) =
              events p @ [Dm_table_event, Dm_pool_alloc_data_block] \<and>
            low_water_triggered (snd (alloc_data_block env tc' p))) \<and>
         (\<not> (free_blocks \<le> low_water_mark p \<and> \<not> low_water_triggered p) \<longrightarrow>
            events (snd (alloc_data_block env tc' p)) = events p @ [Dm_pool_alloc_data_block] \<and>
            low_water_triggered (snd (alloc_data_block env tc' p)) = low_water_triggered p) \<and>
         fst (pool_preresume env2 pt ti_len q) =
           (case dm_pool_get_data_dev_size env2 of
              Inl r \<Rightarrow> Some r
            | Inr sb \<Rightarrow>
                if drop_bit (block_shift q) ti_len < sb then Some EINVAL
                else if sb < drop_bit (block_shift q) ti_len
                then (case dm_pool_resize_data_dev env2 (drop_bit (block_shift q) ti_len) of
                        Some r \<Rightarrow> Some r
                      | None \<Rightarrow> dm_pool_commit_metadata env2)
                else None) \<and>
         low_water_triggered (snd (pool_preresume env2 pt ti_len q)) =
           (fst (pool_preresume env2 pt ti_len q) \<noteq> None \<and> low_water_triggered q)"
proof -
  have a: "fst (alloc_data_block env tc' p) = Inr result \<and>
         (free_blocks \<le> low_water_mark p \<and> \<not> low_water_triggered p \<longrightarrow>
            events (snd (alloc_data_block env tc' p)) =
              events p @ [Dm_table_event, Dm_pool_alloc_data_block] \<and>
            low_water_triggered (snd (alloc_data_block env tc' p))) \<and>
         (\<not> (free_blocks \<le> low_water_mark p \<and> \<not> low_water_triggered p) \<longrightarrow>
            events (snd (alloc_data_block env tc' p)) = events p @ [Dm_pool_alloc_data_block] \<and>
            low_water_triggered (snd (alloc_data_block env tc' p)) = low_water_triggered p)"
    using assms by (auto simp: alloc_data_block_def emit_def Let_def)
  have c: "low_water_triggered (snd (pool_preresume env2 pt ti_len q)) =
           (fst (pool_preresume env2 pt ti_len q) \<noteq> None \<and> low_water_triggered q)"
    using pool_preresume_done[of env2 pt ti_len q] pool_preresume_failed[of env2 pt ti_len q]
    by (cases "fst (pool_preresume env2 pt ti_len q) = None") simp_all
  show ?thesis using a c pool_preresume_returns[of env2 pt ti_len q] by (simp only:) simp
qed

text \<open>
  C8, as amended. When \<open>alloc_data_block\<close> answers \<open>-ENOSPC\<close>, \<open>provision_block\<close> and
  \<open>break_sharing\<close> both end in \<open>no_space\<close>: the bios of the cell, whose map context
  \<open>thin_bio_map\<close> has set, go to the end of the retry list, the cell is released, the
  deferred list is untouched and no bio is ended. A later \<open>pool_preresume\<close> returns 0
  or one of its four errors, as its answers from the metadata decide. When it returns
  0 it has put the whole retry list at the end of the deferred list, emptied it, cleared
  \<open>low_water_triggered\<close> and woken the worker. When it returns an error, the retry list,
  the deferred list and \<open>low_water_triggered\<close> are as they were and the worker has not
  been woken.
\<close>

theorem no_space_parks_until_preresume:
  assumes "cell_pool (prison p) c = Some cl" and "fst (alloc_data_block env tc' p) = Inl ENOSPC"
    and "\<forall>x \<in> set (bios cl). \<exists>t. mapinfo_ptr (bio_mem p x) = Thin_ptr t"
  shows "(\<exists>q'. no_space c (snd (alloc_data_block env tc' p)) = Inr q' \<and>
           provision_block env tc' b blk c p = Some (Inr q') \<and>
           break_sharing env tc' b blk origin c p = Some (Inr q') \<and>
           retry_list q' = retry_list p @ bios cl \<and>
           deferred_bios q' = deferred_bios p \<and>
           cell_pool (prison q') c = None \<and>
           (\<forall>x e. Bio_endio x e \<in> set (events q') \<longrightarrow> Bio_endio x e \<in> set (events p))) \<and>
         fst (pool_preresume env2 pt ti_len q) =
           (case dm_pool_get_data_dev_size env2 of
              Inl r \<Rightarrow> Some r
            | Inr sb \<Rightarrow>
                if drop_bit (block_shift q) ti_len < sb then Some EINVAL
                else if sb < drop_bit (block_shift q) ti_len
                then (case dm_pool_resize_data_dev env2 (drop_bit (block_shift q) ti_len) of
                        Some r \<Rightarrow> Some r
                      | None \<Rightarrow> dm_pool_commit_metadata env2)
                else None) \<and>
         (fst (pool_preresume env2 pt ti_len q) = None \<longrightarrow>
            deferred_bios (snd (pool_preresume env2 pt ti_len q)) = deferred_bios q @ retry_list q \<and>
            retry_list (snd (pool_preresume env2 pt ti_len q)) = [] \<and>
            \<not> low_water_triggered (snd (pool_preresume env2 pt ti_len q)) \<and>
            (\<exists>evs. events (snd (pool_preresume env2 pt ti_len q)) =
                     events q @ evs @ [Queue_work, Pool_table_insert])) \<and>
         (fst (pool_preresume env2 pt ti_len q) \<noteq> None \<longrightarrow>
            deferred_bios (snd (pool_preresume env2 pt ti_len q)) = deferred_bios q \<and>
            retry_list (snd (pool_preresume env2 pt ti_len q)) = retry_list q \<and>
            low_water_triggered (snd (pool_preresume env2 pt ti_len q)) = low_water_triggered q \<and>
            (\<exists>evs. events (snd (pool_preresume env2 pt ti_len q)) = events q @ evs \<and>
                   Queue_work \<notin> set evs \<and> Pool_table_insert \<notin> set evs))"
proof -
  obtain r p1 where a: "alloc_data_block env tc' p = (r, p1)" by (cases "alloc_data_block env tc' p")
  have r: "r = Inl ENOSPC" using assms(2) a by simp
  have fr: "prison p1 = prison p" "retry_list p1 = retry_list p" "deferred_bios p1 = deferred_bios p"
    "bio_mem p1 = bio_mem p"
    "\<And>x e. Bio_endio x e \<in> set (events p1) \<longleftrightarrow> Bio_endio x e \<in> set (events p)"
    using alloc_data_block_frame(1-4)[of env tc' p] alloc_data_block_frame(5)[of _ _ env tc' p] a
    by simp_all
  have c1: "cell_pool (prison p1) c = Some cl" using assms(1) fr by simp
  have t1: "\<forall>x \<in> set (bios cl). \<exists>t. mapinfo_ptr (bio_mem p1 x) = Thin_ptr t" using assms(3) fr by simp
  note ns = no_space_result[OF c1 t1]
  have 1: "provision_block env tc' b blk c p = Some (no_space c p1)"
    and 2: "break_sharing env tc' b blk origin c p = Some (no_space c p1)"
    by (simp_all add: provision_block_def break_sharing_def a r)
  have first: "\<exists>q'. no_space c (snd (alloc_data_block env tc' p)) = Inr q' \<and>
           provision_block env tc' b blk c p = Some (Inr q') \<and>
           break_sharing env tc' b blk origin c p = Some (Inr q') \<and>
           retry_list q' = retry_list p @ bios cl \<and>
           deferred_bios q' = deferred_bios p \<and>
           cell_pool (prison q') c = None \<and>
           (\<forall>x e. Bio_endio x e \<in> set (events q') \<longrightarrow> Bio_endio x e \<in> set (events p))"
    using 1 2 by (simp add: a ns fr mempool_free_cell_def)
  show ?thesis
    using first pool_preresume_returns[of env2 pt ti_len q]
      pool_preresume_done[of env2 pt ti_len q] pool_preresume_failed[of env2 pt ti_len q]
    by (simp only:) blast
qed

text \<open>
  A \<open>pool_preresume\<close> that stops at one of its error returns: with a target shorter than
  the data device in the superblock it returns \<open>-EINVAL\<close>, and the retry list, the
  deferred list and \<open>low_water_triggered\<close> are as they were.
\<close>

theorem preresume_failed_counterexample:
  "fst (pool_preresume env_full \<lparr>pt_low_water_mark = 0, pt_zero_new_blocks = True, pt_metadata_dev = 2\<rparr> 0
          (pool128\<lparr>retry_list := [5], low_water_triggered := True\<rparr>)) = Some EINVAL \<and>
   retry_list (snd (pool_preresume env_full \<lparr>pt_low_water_mark = 0, pt_zero_new_blocks = True, pt_metadata_dev = 2\<rparr> 0
          (pool128\<lparr>retry_list := [5], low_water_triggered := True\<rparr>))) = [5] \<and>
   deferred_bios (snd (pool_preresume env_full \<lparr>pt_low_water_mark = 0, pt_zero_new_blocks = True, pt_metadata_dev = 2\<rparr> 0
          (pool128\<lparr>retry_list := [5], low_water_triggered := True\<rparr>))) = [] \<and>
   low_water_triggered (snd (pool_preresume env_full \<lparr>pt_low_water_mark = 0, pt_zero_new_blocks = True, pt_metadata_dev = 2\<rparr> 0
          (pool128\<lparr>retry_list := [5], low_water_triggered := True\<rparr>))) \<and>
   Queue_work \<notin> set (events (snd (pool_preresume env_full \<lparr>pt_low_water_mark = 0, pt_zero_new_blocks = True, pt_metadata_dev = 2\<rparr> 0
          (pool128\<lparr>retry_list := [5], low_water_triggered := True\<rparr>))))"
  by (simp add: pool_preresume_def env_full_def pool128_def pool_create_def bind_control_target_def
      emit_def Let_def)

text \<open>
  A resume that does not clear the flag: the size of the data device cannot be read,
  \<open>pool_preresume\<close> returns the error and \<open>low_water_triggered\<close> stays set. And an
  allocation that takes the last block above a low-water mark of 0 (the metadata reports
  one free block): no event, the flag stays clear.
\<close>

theorem low_water_flag_counterexample:
  "fst (pool_preresume (env_full\<lparr>dm_pool_get_data_dev_size := Inl EIO\<rparr>)
          \<lparr>pt_low_water_mark = 0, pt_zero_new_blocks = True, pt_metadata_dev = 2\<rparr> 1024
          (pool128\<lparr>low_water_triggered := True\<rparr>)) = Some EIO \<and>
   low_water_triggered (snd (pool_preresume (env_full\<lparr>dm_pool_get_data_dev_size := Inl EIO\<rparr>)
          \<lparr>pt_low_water_mark = 0, pt_zero_new_blocks = True, pt_metadata_dev = 2\<rparr> 1024
          (pool128\<lparr>low_water_triggered := True\<rparr>))) \<and>
   low_water_mark pool128 = 0 \<and> \<not> low_water_triggered pool128 \<and>
   fst (alloc_data_block
          (env_full\<lparr>dm_pool_get_free_block_count := Inr 1, dm_pool_alloc_data_block := Inr 5\<rparr>)
          thin1 pool128) = Inr 5 \<and>
   events (snd (alloc_data_block
          (env_full\<lparr>dm_pool_get_free_block_count := Inr 1, dm_pool_alloc_data_block := Inr 5\<rparr>)
          thin1 pool128)) = [Dm_pool_alloc_data_block] \<and>
   \<not> low_water_triggered (snd (alloc_data_block
          (env_full\<lparr>dm_pool_get_free_block_count := Inr 1, dm_pool_alloc_data_block := Inr 5\<rparr>)
          thin1 pool128))"
  by (simp add: pool_preresume_def env_full_def pool128_def pool_create_def bind_control_target_def
      emit_def Let_def alloc_data_block_def)

theorem thin_bio_map_fast_path_witness:
  "bi_rw (bio_mem pool128 0) AND (REQ_FLUSH env_full OR REQ_FUA env_full) = 0 \<and>
   dm_thin_find_block env_full (td thin1) (get_bio_block pool128 0) False = Inl ENODATA \<and>
   fst (thin_bio_map env_full thin1 0 pool128) = DM_MAPIO_SUBMITTED \<and>
   deferred_bios (snd (thin_bio_map env_full thin1 0 pool128)) = [0] \<and>
   fst (thin_bio_map
          (env_full\<lparr>dm_thin_find_block := \<lambda>d k can_block. Inr \<lparr>lookup_block = 3, shared = False\<rparr>\<rparr>)
          thin1 0 pool128) = DM_MAPIO_REMAPPED \<and>
   bi_sector (bio_mem (snd (thin_bio_map
          (env_full\<lparr>dm_thin_find_block := \<lambda>d k can_block. Inr \<lparr>lookup_block = 3, shared = False\<rparr>\<rparr>)
          thin1 0 pool128)) 0) = 384"
  using thin_bio_map_fast_path[where p = pool128 and b = 0 and env = env_full and tc' = thin1]
    thin_bio_map_fast_path[where p = pool128 and b = 0 and tc' = thin1 and
      env = "env_full\<lparr>dm_thin_find_block := \<lambda>d k can_block. Inr \<lparr>lookup_block = 3, shared = False\<rparr>\<rparr>"]
  by (simp add: env_full_def pool128_def pool_create_def get_bio_block_def thin1_def)



theorem alloc_data_block_low_water_witness:
  "dm_pool_get_free_block_count (env_full\<lparr>dm_pool_alloc_data_block := Inr 5\<rparr>) = Inr 0 \<and>
   dm_pool_alloc_data_block (env_full\<lparr>dm_pool_alloc_data_block := Inr 5\<rparr>) = Inr 5 \<and>
   (0 :: 64 word) \<le> low_water_mark pool128 \<and> \<not> low_water_triggered pool128 \<and>
   events (snd (alloc_data_block (env_full\<lparr>dm_pool_alloc_data_block := Inr 5\<rparr>) thin1 pool128)) =
     [Dm_table_event, Dm_pool_alloc_data_block] \<and>
   low_water_triggered
     (snd (alloc_data_block (env_full\<lparr>dm_pool_alloc_data_block := Inr 5\<rparr>) thin1 pool128)) \<and>
   events (snd (alloc_data_block (env_full\<lparr>dm_pool_alloc_data_block := Inr 5\<rparr>) thin1
                  (pool128\<lparr>low_water_triggered := True\<rparr>))) = [Dm_pool_alloc_data_block] \<and>
   fst (pool_preresume env_full
          \<lparr>pt_low_water_mark = 0, pt_zero_new_blocks = True, pt_metadata_dev = 2\<rparr> 1024
          (pool128\<lparr>low_water_triggered := True\<rparr>)) = None \<and>
   \<not> low_water_triggered (snd (pool_preresume env_full
          \<lparr>pt_low_water_mark = 0, pt_zero_new_blocks = True, pt_metadata_dev = 2\<rparr> 1024
          (pool128\<lparr>low_water_triggered := True\<rparr>)))"
proof -
  have d: "drop_bit 7 (1024 :: 64 word) = 8" by (simp add: drop_bit_eq_div)
  have e: "dm_pool_get_data_dev_size env_full = Inr 8"
    "dm_pool_get_free_block_count (env_full\<lparr>dm_pool_alloc_data_block := Inr 5\<rparr>) = Inr 0"
    "dm_pool_alloc_data_block (env_full\<lparr>dm_pool_alloc_data_block := Inr 5\<rparr>) = Inr 5"
    by (simp_all add: env_full_def)
  have f: "block_shift (pool128\<lparr>low_water_triggered := True\<rparr>) = 7" "low_water_mark pool128 = 0"
    "\<not> low_water_triggered pool128" "events pool128 = []"
    by (simp_all add: pool128_def pool_create_def)
  show ?thesis
    using alloc_data_block_low_water[OF e(2,3), where tc' = thin1 and p = pool128
        and ?env2.0 = env_full and ti_len = 1024 and q = "pool128\<lparr>low_water_triggered := True\<rparr>"
        and pt = "\<lparr>pt_low_water_mark = 0, pt_zero_new_blocks = True, pt_metadata_dev = 2\<rparr>"]
      alloc_data_block_low_water[OF e(2,3), where tc' = thin1
        and p = "pool128\<lparr>low_water_triggered := True\<rparr>"
        and ?env2.0 = env_full and ti_len = 1024 and q = "pool128\<lparr>low_water_triggered := True\<rparr>"
        and pt = "\<lparr>pt_low_water_mark = 0, pt_zero_new_blocks = True, pt_metadata_dev = 2\<rparr>"]
    by (simp add: e f d)
qed

theorem process_prepared_mapping_cases_witness:
  "mapping_pool (pool_with_mapping None None) 0 =
     Some (blank_mapping\<lparr>cell := 3, prepared := True, bio := None, err := None, tc := thin1\<rparr>) \<and>
   (\<exists>q. process_prepared_mapping env_full 0 (pool_with_mapping None None) = Some (Inr q) \<and>
        deferred_bios q = [10, 11]) \<and>
   (\<exists>q. process_prepared_mapping env_full 0 (pool_with_mapping (Some 10) None) = Some (Inr q) \<and>
        deferred_bios q = [11] \<and>
        events q = [Dm_thin_insert_block 7 0 0, Queue_work, Bio_endio 10 None]) \<and>
   (\<exists>q. process_prepared_mapping env_full 0 (pool_with_mapping None (Some EIO)) = Some (Inr q) \<and>
        events q = [Bio_endio 10 (Some EIO), Bio_endio 11 (Some EIO)]) \<and>
   (\<exists>q. process_prepared_mapping (env_full\<lparr>dm_thin_insert_block := \<lambda>d k v. Some EIO\<rparr>) 0
             (pool_with_mapping None None) = Some (Inr q) \<and>
        events q = [Dm_thin_insert_block 7 0 0, Bio_endio 10 (Some EIO), Bio_endio 11 (Some EIO)])"
proof -
  have m: "mapping_pool (pool_with_mapping w e) 0 =
      Some (blank_mapping\<lparr>cell := 3, prepared := True, bio := w, err := e, tc := thin1\<rparr>)" for w e
    by (simp add: pool_with_mapping_def)
  have c: "cell_pool (prison (pool_with_mapping w e))
        (cell (blank_mapping\<lparr>cell := 3, prepared := True, bio := w, err := e, tc := thin1\<rparr>)) =
      Some \<lparr>key = race_key, cell_count = 2, bios = [10, 11]\<rparr>" for w e
    by (simp add: pool_with_mapping_def)
  have h: "\<forall>x \<in> set (bios \<lparr>key = race_key, cell_count = 2, bios = [10, 11]\<rparr>).
        bio (blank_mapping\<lparr>cell := 3, prepared := True, bio := w, err := e, tc := thin1\<rparr>) \<noteq> Some x \<longrightarrow>
        (\<exists>f. bi_end_io (bio_mem (pool_with_mapping w e) x) = Host_end_io f)" for w e
    by (simp add: pool_with_mapping_def pool128_def pool_create_def)
  have s: "bio (blank_mapping\<lparr>cell := 3, prepared := True, bio := w, err := e, tc := thin1\<rparr>) \<noteq> None \<longrightarrow>
        (\<exists>f. saved_bi_end_io (blank_mapping\<lparr>cell := 3, prepared := True, bio := w, err := e,
                 tc := thin1\<rparr>) = Host_end_io f)" for w e
    by (simp add: blank_mapping_def)
  have f: "deferred_bios (pool_with_mapping w e) = []" "events (pool_with_mapping w e) = []" for w e
    by (simp_all add: pool_with_mapping_def pool128_def pool_create_def)
  have 1: "\<exists>q. process_prepared_mapping env_full 0 (pool_with_mapping None None) = Some (Inr q) \<and>
        deferred_bios q = [10, 11]"
    using process_prepared_mapping_cases[OF m[of None None] c[of None None]
        h[where w = None and e = None] s[where w = None and e = None], where env = env_full]
    by (auto simp: m f env_full_def blank_mapping_def thin1_def)
  have 2: "\<exists>q. process_prepared_mapping env_full 0 (pool_with_mapping (Some 10) None) = Some (Inr q) \<and>
        deferred_bios q = [11] \<and>
        events q = [Dm_thin_insert_block 7 0 0, Queue_work, Bio_endio 10 None]"
    using process_prepared_mapping_cases[OF m[of "Some 10" None] c[of "Some 10" None]
        h[where w = "Some 10" and e = None] s[where w = "Some 10" and e = None],
        where env = env_full]
    by (auto simp: m f env_full_def blank_mapping_def thin1_def)
  have 3: "\<exists>q. process_prepared_mapping env_full 0 (pool_with_mapping None (Some EIO)) = Some (Inr q) \<and>
        events q = [Bio_endio 10 (Some EIO), Bio_endio 11 (Some EIO)]"
    using process_prepared_mapping_cases[OF m[of None "Some EIO"] c[of None "Some EIO"]
        h[where w = None and e = "Some EIO"] s[where w = None and e = "Some EIO"],
        where env = env_full]
    by (auto simp: m f env_full_def blank_mapping_def thin1_def)
  have 4: "\<exists>q. process_prepared_mapping (env_full\<lparr>dm_thin_insert_block := \<lambda>d k v. Some EIO\<rparr>) 0
             (pool_with_mapping None None) = Some (Inr q) \<and>
        events q = [Dm_thin_insert_block 7 0 0, Bio_endio 10 (Some EIO), Bio_endio 11 (Some EIO)]"
    using process_prepared_mapping_cases[OF m[of None None] c[of None None]
        h[where w = None and e = None] s[where w = None and e = None],
        where env = "env_full\<lparr>dm_thin_insert_block := \<lambda>d k v. Some EIO\<rparr>"]
    by (auto simp: m f env_full_def blank_mapping_def thin1_def)
  show ?thesis by (intro conjI m 1 2 3 4)
qed

theorem no_space_parks_until_preresume_witness:
  "cell_pool (prison (pool_with_mapping None None)) 3 =
     Some \<lparr>key = race_key, cell_count = 2, bios = [10, 11]\<rparr> \<and>
   fst (alloc_data_block env_full thin1 (pool_with_mapping None None)) = Inl ENOSPC \<and>
   mapinfo_ptr (bio_mem (pool_with_mapping None None) 10) = Thin_ptr thin1 \<and>
   mapinfo_ptr (bio_mem (pool_with_mapping None None) 11) = Thin_ptr thin1 \<and>
   (\<exists>q'. provision_block env_full thin1 10 0 3 (pool_with_mapping None None) = Some (Inr q') \<and>
         retry_list q' = [10, 11] \<and> deferred_bios q' = []) \<and>
   fst (pool_preresume env_full
          \<lparr>pt_low_water_mark = 0, pt_zero_new_blocks = True, pt_metadata_dev = 2\<rparr> 1024
          ((pool_with_mapping None None)\<lparr>retry_list := [10, 11]\<rparr>)) = None \<and>
   deferred_bios (snd (pool_preresume env_full
          \<lparr>pt_low_water_mark = 0, pt_zero_new_blocks = True, pt_metadata_dev = 2\<rparr> 1024
          ((pool_with_mapping None None)\<lparr>retry_list := [10, 11]\<rparr>))) = [10, 11] \<and>
   retry_list (snd (pool_preresume env_full
          \<lparr>pt_low_water_mark = 0, pt_zero_new_blocks = True, pt_metadata_dev = 2\<rparr> 1024
          ((pool_with_mapping None None)\<lparr>retry_list := [10, 11]\<rparr>))) = []"
proof -
  let ?P = "pool_with_mapping None None"
  have c: "cell_pool (prison ?P) 3 = Some \<lparr>key = race_key, cell_count = 2, bios = [10, 11]\<rparr>"
    by (simp add: pool_with_mapping_def)
  have a: "fst (alloc_data_block env_full thin1 ?P) = Inl ENOSPC"
    by (simp add: alloc_data_block_def env_full_def Let_def)
  have t: "\<forall>x \<in> set (bios \<lparr>key = race_key, cell_count = 2, bios = [10, 11]\<rparr>).
        \<exists>t. mapinfo_ptr (bio_mem ?P x) = Thin_ptr t"
    by (simp add: pool_with_mapping_def pool128_def pool_create_def)
  have f: "retry_list ?P = []" "deferred_bios ?P = []" "block_shift (?P\<lparr>retry_list := [10, 11]\<rparr>) = 7"
    "mapinfo_ptr (bio_mem ?P 10) = Thin_ptr thin1" "mapinfo_ptr (bio_mem ?P 11) = Thin_ptr thin1"
    by (simp_all add: pool_with_mapping_def pool128_def pool_create_def)
  have e: "dm_pool_get_data_dev_size env_full = Inr 8" by (simp add: env_full_def)
  have d: "drop_bit 7 (1024 :: 64 word) = 8" by (simp add: drop_bit_eq_div)
  show ?thesis
    using no_space_parks_until_preresume[OF c a t, where b = 10 and blk = 0 and origin = 0
        and ?env2.0 = env_full and ti_len = 1024 and q = "?P\<lparr>retry_list := [10, 11]\<rparr>"
        and pt = "\<lparr>pt_low_water_mark = 0, pt_zero_new_blocks = True, pt_metadata_dev = 2\<rparr>"]
      c a
    by (simp add: f e d) blast
qed

section \<open>Properties of the bio prison\<close>

lemma hash_key_less:
  assumes "nr_buckets pr \<noteq> 0" "hash_mask pr = nr_buckets pr - 1"
  shows "unat (hash_key pr k) < unat (nr_buckets pr)"
proof -
  let ?m = "ucast (hash_mask pr) :: 64 word"
  let ?x = "(block k * (4294967291 :: 64 word)) AND ?m"
  have b32: "unat (hash_mask pr) < 2 ^ 32"
    using unsigned_less[of "hash_mask pr", where ?'a = nat] by simp
  then have b64: "unat (hash_mask pr) < 2 ^ 64" by simp
  have "?x \<le> ?m" by (rule word_and_le1)
  then have "unat ?x \<le> unat ?m" by (simp add: word_le_nat_alt)
  also have "unat ?m = unat (hash_mask pr)"
    using b64 by (simp add: unsigned_ucast_eq take_bit_nat_eq_self)
  finally have le: "unat ?x \<le> unat (hash_mask pr)" .
  then have "unat ?x < 2 ^ 32" using b32 by simp
  then have "unat (ucast ?x :: 32 word) = unat ?x"
    by (simp add: unsigned_ucast_eq take_bit_nat_eq_self)
  then have "unat (hash_key pr k) \<le> unat (hash_mask pr)" using le by (simp add: hash_key_def)
  also have "unat (hash_mask pr) < unat (nr_buckets pr)"
    using assms by (simp add: measure_unat)
  finally show ?thesis .
qed

lemma hash_key_cong: "hash_mask pr' = hash_mask pr \<Longrightarrow> hash_key pr' k = hash_key pr k"
  by (simp add: hash_key_def)

lemma in_table_iff: "c \<in> set (concat xs) \<longleftrightarrow> (\<exists>h < length xs. c \<in> set (xs ! h))"
proof -
  have "(\<exists>ys\<in>set xs. c \<in> set ys) \<longleftrightarrow> (\<exists>h<length xs. c \<in> set (xs ! h))"
    by (metis in_set_conv_nth)
  then show ?thesis by simp
qed

lemma search_bucket_Some:
  "search_bucket pr bucket k = Some c \<Longrightarrow>
   c \<in> set bucket \<and> (\<exists>cl. cell_pool pr c = Some cl \<and> key cl = k)"
  by (auto simp: search_bucket_def find_Some_iff split: option.splits)

lemma search_bucket_None:
  "search_bucket pr bucket k = None \<Longrightarrow> c \<in> set bucket \<Longrightarrow> cell_pool pr c = Some cl \<Longrightarrow> key cl \<noteq> k"
  by (auto simp: search_bucket_def find_None_iff split: option.splits)

lemma search_bucket_cases:
  obtains (found) c cl where "search_bucket pr bucket k = Some c" "c \<in> set bucket"
      "cell_pool pr c = Some cl" "key cl = k"
    | (missing) "search_bucket pr bucket k = None"
      "\<And>c cl. c \<in> set bucket \<Longrightarrow> cell_pool pr c = Some cl \<Longrightarrow> key cl \<noteq> k"
proof (cases "search_bucket pr bucket k")
  case None
  then show ?thesis using search_bucket_None[OF None] missing by blast
next
  case (Some c)
  then show ?thesis using search_bucket_Some[OF Some] found by blast
qed


lemma prison_invI:
  assumes "nr_buckets pr \<noteq> 0" "hash_mask pr = nr_buckets pr - 1"
    "length (cells pr) = unat (nr_buckets pr)"
    "\<And>h. h < length (cells pr) \<Longrightarrow> distinct (cells pr ! h)"
    "\<And>h c. h < length (cells pr) \<Longrightarrow> c \<in> set (cells pr ! h) \<Longrightarrow>
       \<exists>cl. cell_pool pr c = Some cl \<and> unat (hash_key pr (key cl)) = h \<and> bios cl \<noteq> []"
    "\<And>h c1 c2. h < length (cells pr) \<Longrightarrow> c1 \<in> set (cells pr ! h) \<Longrightarrow> c2 \<in> set (cells pr ! h) \<Longrightarrow>
       map_option key (cell_pool pr c1) = map_option key (cell_pool pr c2) \<Longrightarrow> c1 = c2"
  shows "prison_inv pr"
  unfolding prison_inv_def using assms by blast

lemma prison_invD:
  assumes "prison_inv pr"
  shows "nr_buckets pr \<noteq> 0" "hash_mask pr = nr_buckets pr - 1"
    "length (cells pr) = unat (nr_buckets pr)"
    "\<And>h. h < length (cells pr) \<Longrightarrow> distinct (cells pr ! h)"
    "\<And>h c. h < length (cells pr) \<Longrightarrow> c \<in> set (cells pr ! h) \<Longrightarrow>
       \<exists>cl. cell_pool pr c = Some cl \<and> unat (hash_key pr (key cl)) = h \<and> bios cl \<noteq> []"
    "\<And>h c1 c2. h < length (cells pr) \<Longrightarrow> c1 \<in> set (cells pr ! h) \<Longrightarrow> c2 \<in> set (cells pr ! h) \<Longrightarrow>
       map_option key (cell_pool pr c1) = map_option key (cell_pool pr c2) \<Longrightarrow> c1 = c2"
  using assms unfolding prison_inv_def by blast+

lemma prison_hash_in_range: "prison_inv pr \<Longrightarrow> unat (hash_key pr k) < length (cells pr)"
  using hash_key_less[of pr k] by (simp add: prison_inv_def)

text \<open>A change of the cells' memory that keeps the keys and adds bios keeps the table's shape.\<close>

lemma prison_inv_same_table:
  assumes inv: "prison_inv pr"
    and same: "nr_buckets pr' = nr_buckets pr" "hash_mask pr' = hash_mask pr" "cells pr' = cells pr"
    and mem: "\<And>c cl. c \<in> set (concat (cells pr)) \<Longrightarrow> cell_pool pr c = Some cl \<Longrightarrow>
       \<exists>cl'. cell_pool pr' c = Some cl' \<and> key cl' = key cl \<and> bios cl' \<noteq> []"
  shows "prison_inv pr'"
proof (rule prison_invI)
  note d = prison_invD[OF inv]
  show "nr_buckets pr' \<noteq> 0" "hash_mask pr' = nr_buckets pr' - 1"
    "length (cells pr') = unat (nr_buckets pr')"
    using d(1-3) same by simp_all
  show "distinct (cells pr' ! h)" if "h < length (cells pr')" for h
    using that d(4) same by simp
  have keep: "\<exists>cl cl'. cell_pool pr c = Some cl \<and> cell_pool pr' c = Some cl' \<and> key cl' = key cl \<and>
      unat (hash_key pr (key cl)) = h \<and> bios cl' \<noteq> []"
    if "h < length (cells pr)" "c \<in> set (cells pr ! h)" for h c
  proof -
    from d(5)[OF that] obtain cl where cl: "cell_pool pr c = Some cl" "unat (hash_key pr (key cl)) = h"
      by blast
    have "c \<in> set (concat (cells pr))" unfolding in_table_iff using that by blast
    from mem[OF this cl(1)] cl show ?thesis by blast
  qed
  show "\<exists>cl. cell_pool pr' c = Some cl \<and> unat (hash_key pr' (key cl)) = h \<and> bios cl \<noteq> []"
    if "h < length (cells pr')" "c \<in> set (cells pr' ! h)" for h c
  proof -
    have "h < length (cells pr)" "c \<in> set (cells pr ! h)" using that same(3) by simp_all
    from keep[OF this] show ?thesis by (auto simp: hash_key_cong[OF same(2)])
  qed
  show "c1 = c2"
    if "h < length (cells pr')" "c1 \<in> set (cells pr' ! h)" "c2 \<in> set (cells pr' ! h)"
      "map_option key (cell_pool pr' c1) = map_option key (cell_pool pr' c2)" for h c1 c2
  proof -
    have h: "h < length (cells pr)" "c1 \<in> set (cells pr ! h)" "c2 \<in> set (cells pr ! h)"
      using that(1-3) same(3) by simp_all
    from keep[OF h(1,2)] obtain k1 k1' where k1: "cell_pool pr c1 = Some k1"
      "cell_pool pr' c1 = Some k1'" "key k1' = key k1" by blast
    from keep[OF h(1,3)] obtain k2 k2' where k2: "cell_pool pr c2 = Some k2"
      "cell_pool pr' c2 = Some k2'" "key k2' = key k2" by blast
    have "key k1' = key k2'" using that(4) by (simp add: k1(2) k2(2))
    then have "map_option key (cell_pool pr c1) = map_option key (cell_pool pr c2)"
      by (simp add: k1 k2)
    from d(6)[OF h this] show ?thesis .
  qed
qed

lemma detain_add_eq:
  "cell_pool pr c = Some cl \<Longrightarrow>
   detain_add c inmate pr =
     (sint (cell_count cl),
      pr\<lparr>cell_pool := (cell_pool pr)
            (c \<mapsto> cl\<lparr>cell_count := cell_count cl + 1, bios := bios cl @ [inmate]\<rparr>)\<rparr>)"
  by (simp add: detain_add_def)

lemma table_cell_allocated:
  assumes "prison_inv pr" "c \<in> set (concat (cells pr))"
  shows "\<exists>cl. cell_pool pr c = Some cl \<and> bios cl \<noteq> []"
proof -
  from assms(2) obtain h where "h < length (cells pr)" "c \<in> set (cells pr ! h)"
    unfolding in_table_iff by blast
  from prison_invD(5)[OF assms(1) this] show ?thesis by blast
qed

lemma detain_add_inv:
  assumes "prison_inv pr"
  shows "prison_inv (snd (detain_add c inmate pr))"
proof (cases "cell_pool pr c")
  case None
  then show ?thesis using assms by (simp add: detain_add_def)
next
  case (Some cl)
  show ?thesis
  proof (rule prison_inv_same_table[OF assms])
    show "nr_buckets (snd (detain_add c inmate pr)) = nr_buckets pr"
      "hash_mask (snd (detain_add c inmate pr)) = hash_mask pr"
      "cells (snd (detain_add c inmate pr)) = cells pr"
      by (simp_all add: detain_add_eq[OF Some])
    fix c' cl0 assume "c' \<in> set (concat (cells pr))" "cell_pool pr c' = Some cl0"
    then show "\<exists>cl'. cell_pool (snd (detain_add c inmate pr)) c' = Some cl' \<and>
        key cl' = key cl0 \<and> bios cl' \<noteq> []"
      using Some table_cell_allocated[OF assms, of c'] by (auto simp: detain_add_eq[OF Some])
  qed
qed

lemma mempool_alloc_cell_inv:
  assumes "prison_inv pr" "cell_pool pr c = None"
  shows "prison_inv (mempool_alloc_cell c pr)"
proof (rule prison_inv_same_table[OF assms(1)])
  show "nr_buckets (mempool_alloc_cell c pr) = nr_buckets pr"
    "hash_mask (mempool_alloc_cell c pr) = hash_mask pr"
    "cells (mempool_alloc_cell c pr) = cells pr"
    by (simp_all add: mempool_alloc_cell_def)
  fix c' cl0 assume "c' \<in> set (concat (cells pr))" "cell_pool pr c' = Some cl0"
  then show "\<exists>cl'. cell_pool (mempool_alloc_cell c pr) c' = Some cl' \<and>
        key cl' = key cl0 \<and> bios cl' \<noteq> []"
    using assms(2) table_cell_allocated[OF assms(1), of c'] by (auto simp: mempool_alloc_cell_def)
qed

lemma mempool_free_cell_inv:
  assumes "prison_inv pr" "c \<notin> set (concat (cells pr))"
  shows "prison_inv (mempool_free_cell c pr)"
proof (rule prison_inv_same_table[OF assms(1)])
  show "nr_buckets (mempool_free_cell c pr) = nr_buckets pr"
    "hash_mask (mempool_free_cell c pr) = hash_mask pr"
    "cells (mempool_free_cell c pr) = cells pr"
    by (simp_all add: mempool_free_cell_def)
  fix c' cl0 assume "c' \<in> set (concat (cells pr))" "cell_pool pr c' = Some cl0"
  then show "\<exists>cl'. cell_pool (mempool_free_cell c pr) c' = Some cl' \<and>
        key cl' = key cl0 \<and> bios cl' \<noteq> []"
    using assms(2) table_cell_allocated[OF assms(1), of c'] by (auto simp: mempool_free_cell_def)
qed

text \<open>A cell with key \<open>k\<close> is linked in the table only in the bucket \<open>k\<close> hashes to, so
  the search there decides whether the table has one.\<close>

lemma search_table:
  assumes "prison_inv pr"
  shows "search_bucket pr (cells pr ! unat (hash_key pr k)) k = Some c \<longleftrightarrow>
         c \<in> set (concat (cells pr)) \<and> map_option key (cell_pool pr c) = Some k"
proof
  assume s: "search_bucket pr (cells pr ! unat (hash_key pr k)) k = Some c"
  from search_bucket_Some[OF s] prison_hash_in_range[OF assms, of k]
  show "c \<in> set (concat (cells pr)) \<and> map_option key (cell_pool pr c) = Some k"
    unfolding in_table_iff by auto
next
  assume a: "c \<in> set (concat (cells pr)) \<and> map_option key (cell_pool pr c) = Some k"
  then obtain h where h: "h < length (cells pr)" "c \<in> set (cells pr ! h)"
    unfolding in_table_iff by blast
  from a obtain cl where cl: "cell_pool pr c = Some cl" "key cl = k" by auto
  from prison_invD(5)[OF assms h] cl have hk: "h = unat (hash_key pr k)" by auto
  show "search_bucket pr (cells pr ! unat (hash_key pr k)) k = Some c"
  proof (cases rule: search_bucket_cases[of pr "cells pr ! unat (hash_key pr k)" k])
    case (found c' cl')
    have "map_option key (cell_pool pr c') = map_option key (cell_pool pr c)"
      by (simp add: found(3,4) cl)
    from prison_invD(6)[OF assms h(1) _ h(2) this] found(2) hk have "c' = c" by simp
    then show ?thesis using found(1) by simp
  next
    case missing
    from missing(2)[of c cl] h(2) hk cl show ?thesis by simp
  qed
qed

lemma search_table_None:
  assumes "prison_inv pr"
  shows "search_bucket pr (cells pr ! unat (hash_key pr k)) k = None \<longleftrightarrow>
         (\<forall>c \<in> set (concat (cells pr)). map_option key (cell_pool pr c) \<noteq> Some k)"
proof -
  have "search_bucket pr (cells pr ! unat (hash_key pr k)) k \<noteq> None \<longleftrightarrow>
        (\<exists>c. c \<in> set (concat (cells pr)) \<and> map_option key (cell_pool pr c) = Some k)"
    using search_table[OF assms, of k] by (metis not_Some_eq)
  then show ?thesis by blast
qed

lemma detain_insert_found:
  assumes "search_bucket pr (cells pr ! unat (hash_key pr k)) k = Some c" "cell_pool pr c = Some cl"
  shows "detain_insert k inmate cell2 pr =
     (sint (cell_count cl), c,
      mempool_free_cell cell2 (pr\<lparr>cell_pool := (cell_pool pr)
            (c \<mapsto> cl\<lparr>cell_count := cell_count cl + 1, bios := bios cl @ [inmate]\<rparr>)\<rparr>))"
  using assms by (simp add: detain_insert_def detain_add_eq)

lemma detain_insert_missing:
  assumes "search_bucket pr (cells pr ! unat (hash_key pr k)) k = None"
  shows "detain_insert k inmate cell2 pr =
     (0, cell2,
      pr\<lparr>cell_pool := (cell_pool pr)(cell2 \<mapsto> \<lparr>key = k, cell_count = 1, bios = [inmate]\<rparr>),
         cells := (cells pr)[unat (hash_key pr k) := cell2 # (cells pr ! unat (hash_key pr k))]\<rparr>)"
  using assms by (simp add: detain_insert_def detain_add_def Let_def)


lemma detain_add_cells: "cells (snd (detain_add c inmate pr)) = cells pr"
  by (simp add: detain_add_def split: option.splits)

lemma detain_add_allocated:
  "cell_pool pr x \<noteq> None \<Longrightarrow> cell_pool (snd (detain_add c inmate pr)) x \<noteq> None"
  by (simp add: detain_add_def split: option.splits)

lemma detain_insert_found_prison:
  "search_bucket pr (cells pr ! unat (hash_key pr k)) k = Some c \<Longrightarrow>
   snd (snd (detain_insert k inmate cell2 pr)) = mempool_free_cell cell2 (snd (detain_add c inmate pr))"
  by (simp add: detain_insert_def split: prod.splits)

lemma detain_insert_inv:
  assumes inv: "prison_inv pr" and c2: "cell2 \<notin> set (concat (cells pr))"
  shows "prison_inv (snd (snd (detain_insert k inmate cell2 pr)))"
proof (cases rule: search_bucket_cases[of pr "cells pr ! unat (hash_key pr k)" k])
  case (found c cl)
  have "cell2 \<notin> set (concat (cells (snd (detain_add c inmate pr))))"
    using c2 by (simp add: detain_add_cells)
  from mempool_free_cell_inv[OF detain_add_inv[OF inv] this]
  show ?thesis by (simp only: detain_insert_found_prison[OF found(1)])
next
  case missing
  let ?h = "unat (hash_key pr k)"
  let ?pr' = "pr\<lparr>cell_pool := (cell_pool pr)(cell2 \<mapsto> \<lparr>key = k, cell_count = 1, bios = [inmate]\<rparr>),
         cells := (cells pr)[?h := cell2 # (cells pr ! ?h)]\<rparr>"
  note d = prison_invD[OF inv]
  have hr: "?h < length (cells pr)" by (rule prison_hash_in_range[OF inv])
  have notin: "cell2 \<notin> set (cells pr ! h)" if "h < length (cells pr)" for h
    using c2 that unfolding in_table_iff by blast
  have bucket: "(cells pr)[?h := cell2 # (cells pr ! ?h)] ! h =
      (if h = ?h then cell2 # (cells pr ! ?h) else cells pr ! h)"
    if "h < length (cells pr)" for h
    using that by (simp add: nth_list_update)
  have hk: "hash_key ?pr' = hash_key pr" by (rule ext) (simp add: hash_key_def)
  have "prison_inv ?pr'"
  proof (rule prison_invI)
    show "nr_buckets ?pr' \<noteq> 0" "hash_mask ?pr' = nr_buckets ?pr' - 1"
      "length (cells ?pr') = unat (nr_buckets ?pr')"
      using d(1-3) by simp_all
    show "distinct (cells ?pr' ! h)" if "h < length (cells ?pr')" for h
    proof -
      have h: "h < length (cells pr)" using that by simp
      show ?thesis using d(4)[OF h] notin[OF h] by (auto simp: bucket[OF h])
    qed
    show "\<exists>cl. cell_pool ?pr' c = Some cl \<and> unat (hash_key ?pr' (key cl)) = h \<and> bios cl \<noteq> []"
      if "h < length (cells ?pr')" "c \<in> set (cells ?pr' ! h)" for h c
    proof -
      have h: "h < length (cells pr)" using that(1) by simp
      show ?thesis
      proof (cases "c = cell2")
        case True
        then have "h = ?h" using that(2) notin[OF h] by (simp add: bucket[OF h] split: if_splits)
        then show ?thesis using True by (simp add: hash_key_def)
      next
        case False
        then have "c \<in> set (cells pr ! h)" using that(2) by (simp add: bucket[OF h] split: if_splits)
        from d(5)[OF h this] False show ?thesis by (simp add: hash_key_def)
      qed
    qed
    show "c1 = c2"
      if "h < length (cells ?pr')" "c1 \<in> set (cells ?pr' ! h)" "c2 \<in> set (cells ?pr' ! h)"
        "map_option key (cell_pool ?pr' c1) = map_option key (cell_pool ?pr' c2)" for h c1 c2
    proof -
      have h: "h < length (cells pr)" using that(1) by simp
      have old: "x \<in> set (cells pr ! h)" if "x \<in> set (cells ?pr' ! h)" "x \<noteq> cell2" for x
        using that by (simp add: bucket[OF h] split: if_splits)
      have new: "h = ?h" if "cell2 \<in> set (cells ?pr' ! h)"
        using that notin[OF h] by (simp add: bucket[OF h] split: if_splits)
      have clash: False
        if xs: "x \<in> set (cells ?pr' ! h)" "x \<noteq> cell2" "cell2 \<in> set (cells ?pr' ! h)"
          "map_option key (cell_pool pr x) = Some k" for x
      proof -
        have "x \<in> set (cells pr ! ?h)" using old[OF xs(1,2)] new[OF xs(3)] by simp
        moreover obtain cl where "cell_pool pr x = Some cl" "key cl = k" using xs(4) by auto
        ultimately show False using missing(2) by blast
      qed
      show ?thesis
      proof (cases "c1 = cell2")
        case True
        show ?thesis
        proof (cases "c2 = cell2")
          case True
          then show ?thesis using \<open>c1 = cell2\<close> by simp
        next
          case False
          have "map_option key (cell_pool pr c2) = Some k" using that(4) True False by simp
          from clash[OF that(3) False _ this] that(2) True show ?thesis by simp
        qed
      next
        case False
        show ?thesis
        proof (cases "c2 = cell2")
          case True
          have "map_option key (cell_pool pr c1) = Some k" using that(4) True False by simp
          from clash[OF that(2) False _ this] that(3) True show ?thesis by simp
        next
          case c2: False
          have "map_option key (cell_pool pr c1) = map_option key (cell_pool pr c2)"
            using that(4) False c2 by simp
          from d(6)[OF h old[OF that(2) False] old[OF that(3) c2] this] show ?thesis .
        qed
      qed
    qed
  qed
  then show ?thesis by (simp only: detain_insert_missing[OF missing(1)] snd_conv)
qed

lemma cell_release_eq:
  "snd (cell_release c inmates pr) =
     pr\<lparr>cells := map (remove1 c) (cells pr), cell_pool := (cell_pool pr)(c := None)\<rparr>"
  by (simp add: cell_release_def mempool_free_cell_def)

lemma cell_release_inv:
  assumes inv: "prison_inv pr"
  shows "prison_inv (snd (cell_release c inmates pr))"
proof -
  let ?pr' = "pr\<lparr>cells := map (remove1 c) (cells pr), cell_pool := (cell_pool pr)(c := None)\<rparr>"
  note d = prison_invD[OF inv]
  have mem: "x \<in> set (cells pr ! h) \<and> x \<noteq> c"
    if "h < length (cells pr)" "x \<in> set (cells ?pr' ! h)" for h x
    using that d(4)[OF that(1)] by simp
  have "prison_inv ?pr'"
  proof (rule prison_invI)
    show "nr_buckets ?pr' \<noteq> 0" "hash_mask ?pr' = nr_buckets ?pr' - 1"
      "length (cells ?pr') = unat (nr_buckets ?pr')"
      using d(1-3) by simp_all
    show "distinct (cells ?pr' ! h)" if "h < length (cells ?pr')" for h
      using that d(4)[of h] by simp
    show "\<exists>cl. cell_pool ?pr' x = Some cl \<and> unat (hash_key ?pr' (key cl)) = h \<and> bios cl \<noteq> []"
      if "h < length (cells ?pr')" "x \<in> set (cells ?pr' ! h)" for h x
    proof -
      have h: "h < length (cells pr)" using that(1) by simp
      from mem[OF h that(2)] d(5)[OF h, of x] show ?thesis by (simp add: hash_key_def)
    qed
    show "c1 = c2"
      if "h < length (cells ?pr')" "c1 \<in> set (cells ?pr' ! h)" "c2 \<in> set (cells ?pr' ! h)"
        "map_option key (cell_pool ?pr' c1) = map_option key (cell_pool ?pr' c2)" for h c1 c2
    proof -
      have h: "h < length (cells pr)" using that(1) by simp
      note m1 = mem[OF h that(2)] and m2 = mem[OF h that(3)]
      have "map_option key (cell_pool pr c1) = map_option key (cell_pool pr c2)"
        using that(4) m1 m2 by simp
      from d(6)[OF h _ _ this] m1 m2 show ?thesis by blast
    qed
  qed
  then show ?thesis by (simp only: cell_release_eq)
qed

lemma prison_create_inv: "n \<noteq> 0 \<Longrightarrow> prison_inv (prison_create n)"
  by (rule prison_invI) (simp_all add: prison_create_def)


lemma distinct_map_remove1: "distinct (map f xs) \<Longrightarrow> distinct (map f (remove1 x xs))"
proof (induction xs)
  case Nil
  then show ?case by simp
next
  case (Cons a xs)
  have "f a \<notin> f ` set (remove1 x xs)" using Cons.prems set_remove1_subset[of x xs] by auto
  then show ?case using Cons by simp
qed

lemma remove1_map_neq:
  assumes "distinct (map f xs)" "a \<in> set (remove1 x xs)" "x \<in> set xs"
  shows "f a \<noteq> f x" "a \<in> set xs"
proof -
  have d: "distinct xs" "inj_on f (set xs)" using assms(1) by (simp_all add: distinct_map)
  have a: "a \<in> set xs" "a \<noteq> x" using assms(2) d(1) by simp_all
  show "f a \<noteq> f x" using a assms(3) d(2) by (auto dest: inj_onD)
  show "a \<in> set xs" by (rule a(1))
qed

lemma set_concat_remove1: "set (concat (map (remove1 c) xs)) \<subseteq> set (concat xs)"
  using set_remove1_subset[of c] by fastforce

lemma set_concat_update:
  assumes "h < length xs"
  shows "set (concat (xs[h := c # xs ! h])) = insert c (set (concat xs))"
proof -
  have "concat xs = concat (take h xs @ xs ! h # drop (Suc h) xs)"
    by (rule arg_cong[OF id_take_nth_drop[OF assms]])
  then have "set (concat xs) =
      set (concat (take h xs)) \<union> set (xs ! h) \<union> set (concat (drop (Suc h) xs))"
    by (simp add: Un_assoc)
  then show ?thesis using assms by (simp add: upd_conv_take_nth_drop Un_assoc insert_commute)
qed

lemma waiting_ok_detain_insert:
  assumes inv: "prison_inv pr" and w: "waiting_ok pr as" and a: "(k, inmate, cell2) \<in> set as"
  shows "waiting_ok (snd (snd (detain_insert k inmate cell2 pr))) (remove1 (k, inmate, cell2) as)"
proof -
  let ?f = "\<lambda>a :: cell_key \<times> bio_ptr \<times> cell_ptr. snd (snd a)"
  let ?pr' = "snd (snd (detain_insert k inmate cell2 pr))"
  have d: "distinct (map ?f as)" using w by (simp add: waiting_ok_def)
  have rest: "?f x \<noteq> cell2 \<and> cell_pool pr (?f x) \<noteq> None \<and> ?f x \<notin> set (concat (cells pr))"
    if "x \<in> set (remove1 (k, inmate, cell2) as)" for x
    using remove1_map_neq[OF d that a] w by (simp add: waiting_ok_def)
  have keep: "cell_pool ?pr' y \<noteq> None \<and> y \<notin> set (concat (cells ?pr'))"
    if "y \<noteq> cell2" "cell_pool pr y \<noteq> None" "y \<notin> set (concat (cells pr))" for y
  proof (cases rule: search_bucket_cases[of pr "cells pr ! unat (hash_key pr k)" k])
    case (found c cl)
    show ?thesis using that
      by (simp add: detain_insert_found[OF found(1,3)] mempool_free_cell_def)
  next
    case missing
    show ?thesis using that prison_hash_in_range[OF inv, of k]
      by (simp add: detain_insert_missing[OF missing(1)] set_concat_update del: set_concat)
  qed
  show ?thesis
    unfolding waiting_ok_def
  proof (intro conjI ballI)
    show "distinct (map ?f (remove1 (k, inmate, cell2) as))" by (rule distinct_map_remove1[OF d])
    fix x assume x: "x \<in> set (remove1 (k, inmate, cell2) as)"
    from rest[OF x] keep[of "?f x"]
    show "cell_pool ?pr' (?f x) \<noteq> None" "?f x \<notin> set (concat (cells ?pr'))" by blast+
  qed
qed

lemma prison_reach_inv:
  assumes "(pr, ws, as) \<in> prison_reach"
  shows "prison_inv pr \<and> waiting_ok pr as"
  using assms
proof (induction pr ws as rule: prison_reach.induct)
  case (create n)
  then show ?case by (simp add: prison_create_inv waiting_ok_def)
next
  case (detain_found pr ws as k c inmate)
  then show ?case
    by (auto simp: detain_add_inv waiting_ok_def detain_add_cells detain_add_allocated
        simp del: set_concat)
next
  case (detain_unlock pr ws as k inmate)
  then show ?case by simp
next
  case (detain_alloc pr ws as k inmate cell2)
  then have inv: "prison_inv pr" and w: "waiting_ok pr as" by simp_all
  have nt: "cell2 \<notin> set (concat (cells pr))"
    using table_cell_allocated[OF inv, of cell2] detain_alloc.hyps(3) by auto
  have "waiting_ok (mempool_alloc_cell cell2 pr) ((k, inmate, cell2) # as)"
    using w nt detain_alloc.hyps(3)
    by (auto simp: waiting_ok_def mempool_alloc_cell_def simp del: set_concat)
  then show ?case using mempool_alloc_cell_inv[OF inv detain_alloc.hyps(3)] by simp
next
  case (detain_relock pr ws as k inmate cell2)
  then have inv: "prison_inv pr" and w: "waiting_ok pr as" by simp_all
  have nt: "cell2 \<notin> set (concat (cells pr))"
    using w detain_relock.hyps(2) by (auto simp: waiting_ok_def simp del: set_concat)
  show ?case
    using detain_insert_inv[OF inv nt] waiting_ok_detain_insert[OF inv w detain_relock.hyps(2)]
    by simp
next
  case (release pr ws as c inmates)
  then have inv: "prison_inv pr" and w: "waiting_ok pr as" by simp_all
  have "waiting_ok (snd (cell_release c inmates pr)) as"
    using w release.hyps(2) set_concat_remove1[of c "cells pr"]
    by (auto simp: waiting_ok_def cell_release_eq simp del: set_concat)
  then show ?case using cell_release_inv[OF inv] by simp
qed


lemma distinct_concat_nth:
  assumes "\<And>h. h < length xs \<Longrightarrow> distinct (xs ! h)"
    and "\<And>h1 h2. h1 < length xs \<Longrightarrow> h2 < length xs \<Longrightarrow> h1 \<noteq> h2 \<Longrightarrow> set (xs ! h1) \<inter> set (xs ! h2) = {}"
  shows "distinct (concat xs)"
  using assms
proof (induction xs)
  case Nil
  then show ?case by simp
next
  case (Cons x xs)
  have 1: "distinct x" using Cons.prems(1)[of 0] by simp
  have 2: "distinct (concat xs)"
  proof (rule Cons.IH)
    show "distinct (xs ! h)" if "h < length xs" for h using Cons.prems(1)[of "Suc h"] that by simp
    show "set (xs ! h1) \<inter> set (xs ! h2) = {}"
      if "h1 < length xs" "h2 < length xs" "h1 \<noteq> h2" for h1 h2
      using Cons.prems(2)[of "Suc h1" "Suc h2"] that by simp
  qed
  have 3: "set x \<inter> set (concat xs) = {}"
  proof -
    have "set x \<inter> set (xs ! h) = {}" if "h < length xs" for h
      using Cons.prems(2)[of 0 "Suc h"] that by simp
    then show ?thesis unfolding disjoint_iff in_table_iff by blast
  qed
  show ?case using 1 2 3 by simp
qed

lemma filter_at_most_one:
  assumes "distinct xs" and "\<And>x y. x \<in> set xs \<Longrightarrow> y \<in> set xs \<Longrightarrow> P x \<Longrightarrow> P y \<Longrightarrow> x = y"
  shows "length (filter P xs) \<le> 1"
  using assms
proof (induction xs)
  case Nil
  then show ?case by simp
next
  case (Cons a xs)
  show ?case
  proof (cases "P a")
    case True
    have "filter P xs = []"
    proof (rule ccontr)
      assume "filter P xs \<noteq> []"
      then obtain y where y: "y \<in> set xs" "P y" by (auto simp: filter_empty_conv)
      then have "a = y" using Cons.prems(2)[of a y] True by simp
      then show False using y(1) Cons.prems(1) by simp
    qed
    then show ?thesis using True by simp
  next
    case False
    have "length (filter P xs) \<le> 1"
      by (rule Cons.IH) (use Cons.prems in auto)
    then show ?thesis using False by simp
  qed
qed

lemma prison_table_distinct:
  assumes "prison_inv pr"
  shows "distinct (concat (cells pr))"
proof (rule distinct_concat_nth)
  show "distinct (cells pr ! h)" if "h < length (cells pr)" for h
    using prison_invD(4)[OF assms that] .
  show "set (cells pr ! h1) \<inter> set (cells pr ! h2) = {}"
    if "h1 < length (cells pr)" "h2 < length (cells pr)" "h1 \<noteq> h2" for h1 h2
  proof (rule ccontr)
    assume "set (cells pr ! h1) \<inter> set (cells pr ! h2) \<noteq> {}"
    then obtain c where c: "c \<in> set (cells pr ! h1)" "c \<in> set (cells pr ! h2)" by blast
    from prison_invD(5)[OF assms that(1) c(1)] prison_invD(5)[OF assms that(2) c(2)] that(3)
    show False by auto
  qed
qed

lemma prison_key_unique:
  assumes "prison_inv pr" "c1 \<in> set (concat (cells pr))" "c2 \<in> set (concat (cells pr))"
    "map_option key (cell_pool pr c1) = Some k" "map_option key (cell_pool pr c2) = Some k"
  shows "c1 = c2"
proof -
  have "search_bucket pr (cells pr ! unat (hash_key pr k)) k = Some c1"
    "search_bucket pr (cells pr ! unat (hash_key pr k)) k = Some c2"
    using assms by (simp_all only: search_table[OF assms(1)])
  then show ?thesis by simp
qed

text \<open>
  The key as \<open>memcmp\<close> sees it, padding included. In every state the prison can reach,
  with any number of \<open>bio_detain\<close> callers between their two critical sections, the
  table links at most one cell per such key. For a
  caller that waits with its preallocated \<open>cell2\<close>: if by now the table has a cell for
  its key, its second critical section leaves the table as it is, uses the cell found
  and gives \<open>cell2\<close> back to the mempool; if not, it links \<open>cell2\<close>, initialised with
  the key, and nothing else.
\<close>

theorem prison_one_cell_per_key:
  assumes "(pr, ws, as) \<in> prison_reach"
  shows "(\<forall>k. length (filter (\<lambda>c. map_option key (cell_pool pr c) = Some k) (concat (cells pr))) \<le> 1) \<and>
         (\<forall>(k, inmate, cell2) \<in> set as.
            if \<exists>c \<in> set (concat (cells pr)). map_option key (cell_pool pr c) = Some k
            then cells (snd (snd (detain_insert k inmate cell2 pr))) = cells pr \<and>
                 cell_pool (snd (snd (detain_insert k inmate cell2 pr))) cell2 = None \<and>
                 fst (snd (detain_insert k inmate cell2 pr)) \<noteq> cell2
            else fst (snd (detain_insert k inmate cell2 pr)) = cell2 \<and>
                 set (concat (cells (snd (snd (detain_insert k inmate cell2 pr))))) =
                   insert cell2 (set (concat (cells pr))) \<and>
                 map_option key (cell_pool (snd (snd (detain_insert k inmate cell2 pr))) cell2) =
                   Some k)"
proof -
  from prison_reach_inv[OF assms] have inv: "prison_inv pr" and w: "waiting_ok pr as" by simp_all
  have one: "length (filter (\<lambda>c. map_option key (cell_pool pr c) = Some k) (concat (cells pr))) \<le> 1"
    for k
    by (rule filter_at_most_one[OF prison_table_distinct[OF inv]])
       (rule prison_key_unique[OF inv])
  have race: "if \<exists>c \<in> set (concat (cells pr)). map_option key (cell_pool pr c) = Some k
            then cells (snd (snd (detain_insert k inmate cell2 pr))) = cells pr \<and>
                 cell_pool (snd (snd (detain_insert k inmate cell2 pr))) cell2 = None \<and>
                 fst (snd (detain_insert k inmate cell2 pr)) \<noteq> cell2
            else fst (snd (detain_insert k inmate cell2 pr)) = cell2 \<and>
                 set (concat (cells (snd (snd (detain_insert k inmate cell2 pr))))) =
                   insert cell2 (set (concat (cells pr))) \<and>
                 map_option key (cell_pool (snd (snd (detain_insert k inmate cell2 pr))) cell2) =
                   Some k"
    if a: "(k, inmate, cell2) \<in> set as" for k inmate cell2
  proof (cases rule: search_bucket_cases[of pr "cells pr ! unat (hash_key pr k)" k])
    case (found c cl)
    have nt: "cell2 \<notin> set (concat (cells pr))"
      using w a by (auto simp: waiting_ok_def simp del: set_concat)
    have ex: "\<exists>c \<in> set (concat (cells pr)). map_option key (cell_pool pr c) = Some k"
      using search_table[OF inv, of k c] found(1) by blast
    have "c \<in> set (concat (cells pr))" using search_table[OF inv, of k c] found(1) by blast
    then have "c \<noteq> cell2" using nt by blast
    then show ?thesis using ex
      by (simp add: detain_insert_found[OF found(1,3)] mempool_free_cell_def del: set_concat)
  next
    case missing
    have nex: "\<not> (\<exists>c \<in> set (concat (cells pr)). map_option key (cell_pool pr c) = Some k)"
      using search_table_None[OF inv, of k] missing(1) by blast
    show ?thesis using nex prison_hash_in_range[OF inv, of k]
      by (simp add: detain_insert_missing[OF missing(1)] set_concat_update del: set_concat)
  qed
  show ?thesis using one race by blast
qed


lemma sint_count:
  assumes "unat (w :: 32 word) = n" "n < 2 ^ 31"
  shows "sint w = int n"
proof -
  have u: "uint w = int n" by (simp only: uint_nat assms(1))
  have "int n < 2 ^ 31" using assms(2) by simp
  then have "signed_take_bit 31 (int n) = int n"
    by (intro signed_take_bit_int_eq_self) simp_all
  then show ?thesis by (simp add: sint_uint u)
qed

text \<open>
  \<open>bio_detain\<close> on a well-formed prison whose cells hold fewer than \<open>2^31\<close> bios
  returns \<open>r\<close> and a cell that is in the table and has the key, padding included. If
  the table had a cell
  for the key, it is that cell, the inmate is put at the end of its bios, \<open>r\<close> is the
  number of bios it held before, which is not 0, and the table is unchanged. If it had
  none, the cell is the new one, holding the inmate alone, and \<open>r = 0\<close>: so \<open>r = 0\<close>
  exactly for the caller that created the cell. No other cell changes.
\<close>

theorem bio_detain_find_or_create:
  assumes "prison_inv pr" and "cell_counts_ok pr" and "cell_pool pr new_cell = None"
  shows "\<exists>r c pr' cl'.
      bio_detain new_cell k inmate pr = Inr (r, c, pr') \<and>
      prison_inv pr' \<and> c \<in> set (concat (cells pr')) \<and>
      cell_pool pr' c = Some cl' \<and> key cl' = k \<and>
      (\<forall>c0 cl0. c0 \<in> set (concat (cells pr)) \<and> cell_pool pr c0 = Some cl0 \<and> key cl0 = k \<longrightarrow>
         c = c0 \<and> bios cl' = bios cl0 @ [inmate] \<and> r = int (length (bios cl0)) \<and> r \<noteq> 0 \<and>
         cells pr' = cells pr) \<and>
      ((\<forall>c0 \<in> set (concat (cells pr)). map_option key (cell_pool pr c0) \<noteq> Some k) \<longrightarrow>
         c = new_cell \<and> bios cl' = [inmate] \<and> r = 0 \<and>
         set (concat (cells pr')) = insert new_cell (set (concat (cells pr)))) \<and>
      (\<forall>c'. c' \<noteq> c \<and> c' \<noteq> new_cell \<longrightarrow> cell_pool pr' c' = cell_pool pr c')"
proof -
  note inv = assms(1)
  let ?h = "hash_key pr k"
  have "unat ?h < unat (nr_buckets pr)"
    using hash_key_less[of pr k] prison_invD(1,2)[OF inv] by simp
  then have nobug: "\<not> ?h > nr_buckets pr" by (simp add: word_less_nat_alt)
  show ?thesis
  proof (cases rule: search_bucket_cases[of pr "cells pr ! unat ?h" k])
    case (found c cl)
    let ?cl' = "cl\<lparr>cell_count := cell_count cl + 1, bios := bios cl @ [inmate]\<rparr>"
    let ?pr' = "pr\<lparr>cell_pool := (cell_pool pr)(c \<mapsto> ?cl')\<rparr>"
    have res: "bio_detain new_cell k inmate pr = Inr (sint (cell_count cl), c, ?pr')"
      using nobug found(1,3) by (simp add: bio_detain_def detain_add_eq)
    have tab: "c \<in> set (concat (cells pr))" "map_option key (cell_pool pr c) = Some k"
      using search_table[OF inv, of k c] found(1) by blast+
    have cnt: "unat (cell_count cl) = length (bios cl)" "length (bios cl) < 2 ^ 31"
      using assms(2) tab(1) found(3) unfolding cell_counts_ok_def by blast+
    have r: "sint (cell_count cl) = int (length (bios cl))" by (rule sint_count[OF cnt])
    have ne: "bios cl \<noteq> []" using table_cell_allocated[OF inv tab(1)] found(3) by simp
    have inv': "prison_inv ?pr'" using detain_add_inv[OF inv, of c inmate] by (simp add: detain_add_eq[OF found(3)])
    have uniq: "c0 = c \<and> cl0 = cl"
      if "c0 \<in> set (concat (cells pr))" "cell_pool pr c0 = Some cl0" "key cl0 = k" for c0 cl0
    proof -
      have "c0 = c" using prison_key_unique[OF inv that(1) tab(1) _ tab(2)] that(2,3) by simp
      then show ?thesis using that(2) found(3) by simp
    qed
    show ?thesis
    proof (intro exI[of _ "sint (cell_count cl)"] exI[of _ c] exI[of _ ?pr'] exI[of _ ?cl'] conjI)
      show "bio_detain new_cell k inmate pr = Inr (sint (cell_count cl), c, ?pr')" by (rule res)
      show "prison_inv ?pr'" by (rule inv')
      show "c \<in> set (concat (cells ?pr'))" using tab(1) by simp
      show "cell_pool ?pr' c = Some ?cl'" by simp
      show "key ?cl' = k" using found(4) by simp
      show "\<forall>c0 cl0. c0 \<in> set (concat (cells pr)) \<and> cell_pool pr c0 = Some cl0 \<and> key cl0 = k \<longrightarrow>
         c = c0 \<and> bios ?cl' = bios cl0 @ [inmate] \<and> sint (cell_count cl) = int (length (bios cl0)) \<and>
         sint (cell_count cl) \<noteq> 0 \<and> cells ?pr' = cells pr"
        using uniq r ne by auto
      show "(\<forall>c0 \<in> set (concat (cells pr)). map_option key (cell_pool pr c0) \<noteq> Some k) \<longrightarrow>
         c = new_cell \<and> bios ?cl' = [inmate] \<and> sint (cell_count cl) = 0 \<and>
         set (concat (cells ?pr')) = insert new_cell (set (concat (cells pr)))"
        using tab by blast
      show "\<forall>c'. c' \<noteq> c \<and> c' \<noteq> new_cell \<longrightarrow> cell_pool ?pr' c' = cell_pool pr c'" by simp
    qed
  next
    case missing
    let ?pa = "mempool_alloc_cell new_cell pr"
    let ?cl' = "\<lparr>key = k, cell_count = 1, bios = [inmate]\<rparr>"
    let ?pr' = "?pa\<lparr>cell_pool := (cell_pool ?pa)(new_cell \<mapsto> ?cl'),
         cells := (cells ?pa)[unat (hash_key ?pa k) := new_cell # (cells ?pa ! unat (hash_key ?pa k))]\<rparr>"
    have nt: "new_cell \<notin> set (concat (cells pr))"
      using table_cell_allocated[OF inv, of new_cell] assms(3) by auto
    have inva: "prison_inv ?pa" by (rule mempool_alloc_cell_inv[OF inv assms(3)])
    have none: "\<forall>c0 \<in> set (concat (cells pr)). map_option key (cell_pool pr c0) \<noteq> Some k"
      using search_table_None[OF inv, of k] missing(1) by blast
    have ca: "cells ?pa = cells pr" "hash_key ?pa k = hash_key pr k"
      by (simp_all add: mempool_alloc_cell_def hash_key_def)
    have "\<forall>c0 \<in> set (concat (cells ?pa)). map_option key (cell_pool ?pa c0) \<noteq> Some k"
      using none nt by (auto simp: mempool_alloc_cell_def simp del: set_concat)
    then have sa: "search_bucket ?pa (cells ?pa ! unat (hash_key ?pa k)) k = None"
      using search_table_None[OF inva, of k] by blast
    have res: "bio_detain new_cell k inmate pr = Inr (0, new_cell, ?pr')"
      using nobug missing(1) detain_insert_missing[OF sa, of inmate new_cell]
      by (simp add: bio_detain_def)
    have inv': "prison_inv ?pr'"
      using detain_insert_inv[OF inva, of new_cell k inmate] nt
      by (simp only: ca(1) detain_insert_missing[OF sa] snd_conv) simp
    have hr: "unat (hash_key pr k) < length (cells pr)" by (rule prison_hash_in_range[OF inv])
    have tab': "set (concat (cells ?pr')) = insert new_cell (set (concat (cells pr)))"
      using set_concat_update[OF hr, of new_cell] by (simp add: ca del: set_concat)
    show ?thesis
    proof (intro exI[of _ "0::int"] exI[of _ new_cell] exI[of _ ?pr'] exI[of _ ?cl'] conjI)
      show "bio_detain new_cell k inmate pr = Inr (0, new_cell, ?pr')" by (rule res)
      show "prison_inv ?pr'" by (rule inv')
      show "new_cell \<in> set (concat (cells ?pr'))" by (simp only: tab') simp
      show "cell_pool ?pr' new_cell = Some ?cl'" by simp
      show "key ?cl' = k" by simp
      show "\<forall>c0 cl0. c0 \<in> set (concat (cells pr)) \<and> cell_pool pr c0 = Some cl0 \<and> key cl0 = k \<longrightarrow>
         new_cell = c0 \<and> bios ?cl' = bios cl0 @ [inmate] \<and> (0::int) = int (length (bios cl0)) \<and>
         (0::int) \<noteq> 0 \<and> cells ?pr' = cells pr"
        using none by force
      show "(\<forall>c0 \<in> set (concat (cells pr)). map_option key (cell_pool pr c0) \<noteq> Some k) \<longrightarrow>
         new_cell = new_cell \<and> bios ?cl' = [inmate] \<and> (0::int) = 0 \<and>
         set (concat (cells ?pr')) = insert new_cell (set (concat (cells pr)))"
        using tab' by simp
      show "\<forall>c'. c' \<noteq> new_cell \<and> c' \<noteq> new_cell \<longrightarrow> cell_pool ?pr' c' = cell_pool pr c'"
        by (simp add: mempool_alloc_cell_def)
    qed
  qed
qed


lemma race_prison_facts:
  "cells race_prison = [[3]]"
  "cell_pool race_prison 3 = Some \<lparr>key = race_key, cell_count = 1, bios = [10]\<rparr>"
  "cell_pool race_prison 4 \<noteq> None" "cell_pool race_prison 5 = None"
  by (simp_all add: race_prison_def detain_insert_def detain_add_def mempool_alloc_cell_def
      prison_create_def hash_key_def search_bucket_def Let_def)

lemma race_prison_reach: "(race_prison, [], [(race_key, 11, 4)]) \<in> prison_reach"
proof -
  let ?p0 = "prison_create 1"
  have s0: "(?p0, [], []) \<in> prison_reach" by (rule prison_reach.create) simp
  have miss: "search_bucket ?p0 (cells ?p0 ! unat (hash_key ?p0 race_key)) race_key = None"
    by (simp add: prison_create_def hash_key_def search_bucket_def)
  have s1: "(?p0, [(race_key, 10)], []) \<in> prison_reach"
    by (rule prison_reach.detain_unlock[OF s0 miss])
  have s2: "(?p0, [(race_key, 11), (race_key, 10)], []) \<in> prison_reach"
    by (rule prison_reach.detain_unlock[OF s1 miss])
  have s3: "(mempool_alloc_cell 3 ?p0, [(race_key, 11)], [(race_key, 10, 3)]) \<in> prison_reach"
    using prison_reach.detain_alloc[OF s2, of race_key 10 3] by (simp add: prison_create_def)
  have s4: "(mempool_alloc_cell 4 (mempool_alloc_cell 3 ?p0), [],
             [(race_key, 11, 4), (race_key, 10, 3)]) \<in> prison_reach"
    using prison_reach.detain_alloc[OF s3, of race_key 11 4]
    by (simp add: prison_create_def mempool_alloc_cell_def)
  show ?thesis
    using prison_reach.detain_relock[OF s4, of race_key 10 3] by (simp add: race_prison_def)
qed

theorem prison_one_cell_per_key_witness:
  "(race_prison, [], [(race_key, 11, 4)]) \<in> prison_reach \<and>
   concat (cells race_prison) = [3] \<and>
   length (filter (\<lambda>c. map_option key (cell_pool race_prison c) = Some race_key)
             (concat (cells race_prison))) \<le> 1 \<and>
   cells (snd (snd (detain_insert race_key 11 4 race_prison))) = cells race_prison \<and>
   cell_pool (snd (snd (detain_insert race_key 11 4 race_prison))) 4 = None"
  using prison_one_cell_per_key[OF race_prison_reach] race_prison_reach
  by (simp add: race_prison_facts)

theorem bio_detain_find_or_create_witness:
  "prison_inv race_prison \<and> cell_counts_ok race_prison \<and> cell_pool race_prison 5 = None \<and>
   (\<exists>pr' cl'. bio_detain 5 race_key 11 race_prison = Inr (1, 3, pr') \<and>
        cell_pool pr' 3 = Some cl' \<and> bios cl' = [10, 11])"
proof -
  have inv: "prison_inv race_prison" using prison_reach_inv[OF race_prison_reach] by simp
  have cnt: "cell_counts_ok race_prison" by (simp add: cell_counts_ok_def race_prison_facts)
  have free: "cell_pool race_prison 5 = None" by (rule race_prison_facts(4))
  from bio_detain_find_or_create[OF inv cnt free, of race_key 11]
  obtain r c pr' cl' where res: "bio_detain 5 race_key 11 race_prison = Inr (r, c, pr')"
    "cell_pool pr' c = Some cl'"
    and old: "\<forall>c0 cl0. c0 \<in> set (concat (cells race_prison)) \<and> cell_pool race_prison c0 = Some cl0 \<and>
         key cl0 = race_key \<longrightarrow>
         c = c0 \<and> bios cl' = bios cl0 @ [11] \<and> r = int (length (bios cl0)) \<and> r \<noteq> 0 \<and>
         cells pr' = cells race_prison"
    by blast
  from old[rule_format, of 3 "\<lparr>key = race_key, cell_count = 1, bios = [10]\<rparr>"]
  have "c = 3" "bios cl' = [10, 11]" "r = 1" by (simp_all add: race_prison_facts)
  then show ?thesis using inv cnt free res by auto
qed

lemma frames_facts:
  "cells frames_prison1 = [[3]]"
  "cell_pool frames_prison1 = [3 \<mapsto> \<lparr>key = stack_key1, cell_count = 1, bios = [10]\<rparr>]"
  "nr_buckets frames_prison1 = 1" "hash_mask frames_prison1 = 0"
  "cells frames_prison2 = [[4, 3]]"
  "cell_pool frames_prison2 = [3 \<mapsto> \<lparr>key = stack_key1, cell_count = 1, bios = [10]\<rparr>,
                               4 \<mapsto> \<lparr>key = stack_key2, cell_count = 1, bios = [11]\<rparr>]"
  "stack_key1 = \<lparr>virtual = 1, pad = 0, dev = 7, block = 5\<rparr>"
  "stack_key2 = \<lparr>virtual = 1, pad = 0xdead, dev = 7, block = 5\<rparr>"
  by (simp_all add: frames_prison2_def frames_prison1_def detain_insert_def detain_add_def
      mempool_alloc_cell_def prison_create_def hash_key_def search_bucket_def Let_def
      stack_key1_def stack_key2_def build_virtual_key_def thin1_def)

text \<open>
  C2 at two keys that differ in their padding only: both are for block 5 of thin device
  7. After the two calls of \<open>bio_detain\<close>, one after the other, the one bucket links
  the cells 4 and 3, one for each; the second search has not found cell 3, and \<open>cell2\<close>
  has been linked instead of going back to the mempool. The state is one the prison
  reaches.
\<close>

theorem padding_links_two_cells:
  "virtual stack_key1 = virtual stack_key2 \<and> dev stack_key1 = dev stack_key2 \<and>
   block stack_key1 = block stack_key2 \<and>
   bio_detain 3 stack_key1 10 (prison_create 1) = Inr (0, 3, frames_prison1) \<and>
   bio_detain 4 stack_key2 11 frames_prison1 = Inr (0, 4, frames_prison2) \<and>
   concat (cells frames_prison2) = [4, 3] \<and>
   map_option key (cell_pool frames_prison2 3) = Some stack_key1 \<and>
   map_option key (cell_pool frames_prison2 4) = Some stack_key2 \<and>
   (frames_prison2, [], []) \<in> prison_reach"
proof -
  let ?p0 = "prison_create 1"
  have b1: "bio_detain 3 stack_key1 10 ?p0 = Inr (0, 3, frames_prison1)"
    by (simp add: bio_detain_def frames_prison1_def detain_insert_def detain_add_def
        mempool_alloc_cell_def prison_create_def hash_key_def search_bucket_def Let_def)
  have b2: "bio_detain 4 stack_key2 11 frames_prison1 = Inr (0, 4, frames_prison2)"
    by (simp add: bio_detain_def frames_prison2_def frames_facts detain_insert_def detain_add_def
        mempool_alloc_cell_def hash_key_def search_bucket_def Let_def)
  have s0: "(?p0, [], []) \<in> prison_reach" by (rule prison_reach.create) simp
  have m1: "search_bucket ?p0 (cells ?p0 ! unat (hash_key ?p0 stack_key1)) stack_key1 = None"
    by (simp add: prison_create_def hash_key_def search_bucket_def)
  have s1: "(?p0, [(stack_key1, 10)], []) \<in> prison_reach"
    by (rule prison_reach.detain_unlock[OF s0 m1])
  have s2: "(mempool_alloc_cell 3 ?p0, [], [(stack_key1, 10, 3)]) \<in> prison_reach"
    using prison_reach.detain_alloc[OF s1, of stack_key1 10 3] by (simp add: prison_create_def)
  have s3: "(frames_prison1, [], []) \<in> prison_reach"
    using prison_reach.detain_relock[OF s2, of stack_key1 10 3] by (simp add: frames_prison1_def)
  have m2: "search_bucket frames_prison1
      (cells frames_prison1 ! unat (hash_key frames_prison1 stack_key2)) stack_key2 = None"
    by (simp add: frames_facts hash_key_def search_bucket_def)
  have s4: "(frames_prison1, [(stack_key2, 11)], []) \<in> prison_reach"
    by (rule prison_reach.detain_unlock[OF s3 m2])
  have s5: "(mempool_alloc_cell 4 frames_prison1, [], [(stack_key2, 11, 4)]) \<in> prison_reach"
    using prison_reach.detain_alloc[OF s4, of stack_key2 11 4] by (simp add: frames_facts)
  have s6: "(frames_prison2, [], []) \<in> prison_reach"
    using prison_reach.detain_relock[OF s5, of stack_key2 11 4] by (simp add: frames_prison2_def)
  show ?thesis using b1 b2 s6 by (simp add: frames_facts)
qed

text \<open>
  C3 at the same two keys: cell 3 holds bio 10 for block 5 of thin device 7 when
  \<open>bio_detain\<close> is called with bio 11 for the same block. The call returns 0 with the
  new cell 4, and cell 3 holds bio 10 alone as before.
\<close>

theorem padding_second_owner:
  "virtual stack_key1 = virtual stack_key2 \<and> dev stack_key1 = dev stack_key2 \<and>
   block stack_key1 = block stack_key2 \<and>
   cell_pool frames_prison1 3 = Some \<lparr>key = stack_key1, cell_count = 1, bios = [10]\<rparr> \<and>
   3 \<in> set (concat (cells frames_prison1)) \<and>
   fst (detain_insert stack_key2 11 4 (mempool_alloc_cell 4 frames_prison1)) = 0 \<and>
   bio_detain 4 stack_key2 11 frames_prison1 =
     Inr (detain_insert stack_key2 11 4 (mempool_alloc_cell 4 frames_prison1)) \<and>
   fst (snd (detain_insert stack_key2 11 4 (mempool_alloc_cell 4 frames_prison1))) = 4 \<and>
   cell_pool frames_prison2 3 = Some \<lparr>key = stack_key1, cell_count = 1, bios = [10]\<rparr> \<and>
   cell_pool frames_prison2 4 = Some \<lparr>key = stack_key2, cell_count = 1, bios = [11]\<rparr>"
  by (simp add: frames_facts bio_detain_def detain_insert_def detain_add_def mempool_alloc_cell_def
      hash_key_def search_bucket_def Let_def)

end
